theory Spec2Isabelle
  imports Main "HOL-Library.Multiset" "HOL-Library.Sublist"
    "HOL-Library.Char_ord" "HOL-Library.List_Lexorder"
begin

section \<open>Flasks and puzzles as objects in a store\<close>

text \<open>
  A colour is a JavaScript number used as a cluster index; only equality is used on it.
  A \<open>Flask\<close> is an object holding the array \<open>_layers\<close> (bottom first, the top is the last
  element). Flask objects are shared by reference and mutated in place by
  \<open>Flask.transfuse\<close>, so the model keeps them in a store: the store is the list of the
  \<open>_layers\<close> arrays of all flasks allocated so far, and a flask reference is its position
  in that list. A \<open>Puzzle\<close> is its array \<open>_flasks\<close> of flask references; the array itself
  is never changed after construction.

  A call that may throw returns the thrown error or the value, together with the store
  as it is when the call ends.

  The constant \<open>FlaskCapacity\<close> (file constants/flask-capacity.const.js) is a parameter
  \<open>C\<close> of every function that reads it.
\<close>

type_synonym color = int
type_synonym layers = "color list"
type_synonym flask = nat
type_synonym heap = "layers list"
type_synonym puzzle = "flask list"

datatype error = FlaskOverLimit | IndexOutOfBounds | InvalidTransfusion

type_synonym 'a result = "(error + 'a) \<times> heap"

subsection \<open>Flask\<close>

text \<open>The constructor: throws when given more than \<open>FlaskCapacity\<close> layers, otherwise
  allocates a flask holding a copy of the layers.\<close>

definition Flask_new :: "nat \<Rightarrow> layers \<Rightarrow> heap \<Rightarrow> flask result" where
  "Flask_new C ls h =
     (if length ls > C then (Inl FlaskOverLimit, h) else (Inr (length h), h @ [ls]))"

definition isEmpty :: "heap \<Rightarrow> flask \<Rightarrow> bool" where
  "isEmpty h f = (length (h ! f) = 0)"

definition isFull :: "nat \<Rightarrow> heap \<Rightarrow> flask \<Rightarrow> bool" where
  "isFull C h f = (length (h ! f) = C)"

text \<open>\<open>isInFinalState\<close>: empty, or full with every layer equal to the layer at index 0
  (read only when the flask is not empty).\<close>

definition isInFinalState :: "nat \<Rightarrow> heap \<Rightarrow> flask \<Rightarrow> bool" where
  "isInFinalState C h f =
     (isEmpty h f \<or> (isFull C h f \<and> list_all (\<lambda>layer. layer = hd (h ! f)) (h ! f)))"

text \<open>\<open>Flask.isTransfusionValid\<close>; \<open>_layers.at(-1)\<close> is read only on non-empty arrays.\<close>

definition Flask_isTransfusionValid :: "nat \<Rightarrow> heap \<Rightarrow> flask \<Rightarrow> flask \<Rightarrow> bool" where
  "Flask_isTransfusionValid C h sourceFlask destinationFlask =
     (if isEmpty h sourceFlask then False
      else if isFull C h destinationFlask then False
      else if \<not> isEmpty h destinationFlask
              \<and> last (h ! sourceFlask) \<noteq> last (h ! destinationFlask) then False
      else True)"

text \<open>The counting loop of \<open>Flask.transfuse\<close>: it walks the layers from the top down and
  stops at the first layer that differs from the top one. \<open>countSame\<close> takes the layers
  in the order the loop visits them.\<close>

fun countSame :: "color \<Rightarrow> layers \<Rightarrow> nat" where
  "countSame t [] = 0"
| "countSame t (x # xs) = (if x = t then Suc (countSame t xs) else 0)"

definition topRun :: "layers \<Rightarrow> nat" where
  "topRun ls = countSame (last ls) (rev ls)"

text \<open>The moving loop: each round pops the source's top layer and pushes it on the
  destination. The two references may denote the same flask, in which case the push
  acts on the array the pop has just shortened. The loop is entered only after the
  validity check, with a bound that is at most the number of layers of the source, so a
  pop never meets an empty array; the model leaves the store alone there.\<close>

fun pour :: "nat \<Rightarrow> flask \<Rightarrow> flask \<Rightarrow> heap \<Rightarrow> heap" where
  "pour 0 s d h = h"
| "pour (Suc n) s d h =
     (if h ! s = [] then h
      else let v = last (h ! s);
               h1 = h[s := butlast (h ! s)];
               h2 = h1[d := h1 ! d @ [v]]
           in pour n s d h2)"

definition Flask_transfuse :: "nat \<Rightarrow> flask \<Rightarrow> flask \<Rightarrow> heap \<Rightarrow> unit result" where
  "Flask_transfuse C sourceFlask destinationFlask h =
     (if \<not> Flask_isTransfusionValid C h sourceFlask destinationFlask
      then (Inl InvalidTransfusion, h)
      else let avaliableCapacity = int C - int (length (h ! destinationFlask));
               layersWithSameColor = int (topRun (h ! sourceFlask))
           in (Inr (),
               pour (nat (min avaliableCapacity layersWithSameColor))
                 sourceFlask destinationFlask h))"

subsection \<open>Decimal rendering and \<open>Flask.toString\<close>\<close>

function showNat :: "nat \<Rightarrow> string" where
  "showNat n = (if n < 10 then [''0123456789'' ! n]
                else showNat (n div 10) @ [''0123456789'' ! (n mod 10)])"
  by pat_completeness auto
termination
  by (relation "measure id") auto

definition showInt :: "int \<Rightarrow> string" where
  "showInt i = (if i < 0 then CHR ''-'' # showNat (nat (- i)) else showNat (nat i))"

fun join :: "string \<Rightarrow> string list \<Rightarrow> string" where
  "join sep [] = []"
| "join sep [x] = x"
| "join sep (x # y # ys) = x @ sep @ join sep (y # ys)"

definition Flask_toString :: "heap \<Rightarrow> flask \<Rightarrow> string" where
  "Flask_toString h f = join '','' (map showInt (h ! f))"

subsection \<open>Puzzle\<close>

text \<open>The constructor allocates one flask per row, in order; the first row that is too
  long makes it throw.\<close>

fun Puzzle_new :: "nat \<Rightarrow> layers list \<Rightarrow> heap \<Rightarrow> puzzle result" where
  "Puzzle_new C [] h = (Inr [], h)"
| "Puzzle_new C (ls # layersMatrix) h =
     (case Flask_new C ls h of
        (Inl e, h1) \<Rightarrow> (Inl e, h1)
      | (Inr f, h1) \<Rightarrow>
          (case Puzzle_new C layersMatrix h1 of
             (Inl e, h2) \<Rightarrow> (Inl e, h2)
           | (Inr p, h2) \<Rightarrow> (Inr (f # p), h2)))"

definition layersMatrix :: "heap \<Rightarrow> puzzle \<Rightarrow> layers list" where
  "layersMatrix h p = map (\<lambda>f. h ! f) p"

definition Puzzle_copy :: "nat \<Rightarrow> puzzle \<Rightarrow> heap \<Rightarrow> puzzle result" where
  "Puzzle_copy C p h = Puzzle_new C (layersMatrix h p) h"

definition isSolved :: "nat \<Rightarrow> heap \<Rightarrow> puzzle \<Rightarrow> bool" where
  "isSolved C h p = (\<not> list_ex (\<lambda>f. \<not> isInFinalState C h f) p)"

text \<open>Flask indices are JavaScript numbers and may be negative; they are integers here.\<close>

definition outOfBounds :: "puzzle \<Rightarrow> int \<Rightarrow> int \<Rightarrow> bool" where
  "outOfBounds p sourceFlaskIndex destinationFlaskIndex =
     (sourceFlaskIndex < 0 \<or> sourceFlaskIndex \<ge> int (length p)
      \<or> destinationFlaskIndex < 0 \<or> destinationFlaskIndex \<ge> int (length p))"

definition Puzzle_isTransfusionValid ::
  "nat \<Rightarrow> heap \<Rightarrow> puzzle \<Rightarrow> int \<Rightarrow> int \<Rightarrow> error + bool" where
  "Puzzle_isTransfusionValid C h p sourceFlaskIndex destinationFlaskIndex =
     (if outOfBounds p sourceFlaskIndex destinationFlaskIndex then Inl IndexOutOfBounds
      else if sourceFlaskIndex = destinationFlaskIndex then Inr False
      else Inr (Flask_isTransfusionValid C h
                  (p ! nat sourceFlaskIndex) (p ! nat destinationFlaskIndex)))"

definition Puzzle_transfuse :: "nat \<Rightarrow> puzzle \<Rightarrow> int \<Rightarrow> int \<Rightarrow> heap \<Rightarrow> unit result" where
  "Puzzle_transfuse C p sourceFlaskIndex destinationFlaskIndex h =
     (if outOfBounds p sourceFlaskIndex destinationFlaskIndex then (Inl IndexOutOfBounds, h)
      else Flask_transfuse C (p ! nat sourceFlaskIndex) (p ! nat destinationFlaskIndex) h)"

definition toStringWithSort :: "heap \<Rightarrow> puzzle \<Rightarrow> string" where
  "toStringWithSort h p = join [CHR 0x0A] (sort (map (Flask_toString h) p))"

section \<open>The solver\<close>

text \<open>
  A transfusion is the pair of flask indices \<open>[ i, j ]\<close>. A search step carries the
  puzzle it has reached and the transfusions made so far; a priority-queue step carries
  the metric of its puzzle as well.
\<close>

type_synonym move = "int \<times> int"

record StackStep =
  puzzle :: puzzle
  transfusions :: "move list"

record PriorityQueueStep = StackStep +
  metric :: nat

text \<open>\<open>calculateSolutionMetric\<close>: the number of positions \<open>i \<ge> 1\<close> of a flask whose layer
  equals the layer below it, summed over the flasks. It reads the layers only. The
  getter \<open>flasks\<close>, used here and in the bounds of the search loops, hands out copies of
  the flasks that are dropped after the read; the store of the model holds the flasks
  of puzzles only and leaves these copies out.\<close>

fun equalPairs :: "layers \<Rightarrow> nat" where
  "equalPairs (x # y # ys) = (if y = x then 1 else 0) + equalPairs (y # ys)"
| "equalPairs ls = 0"

definition calculateSolutionMetric :: "heap \<Rightarrow> puzzle \<Rightarrow> nat" where
  "calculateSolutionMetric h p = sum_list (map (\<lambda>f. equalPairs (h ! f)) p)"

subsection \<open>The template search\<close>

text \<open>
  \<open>solveUsingPriorityQueueOrStack\<close> is written once for both frontiers and receives the
  frontier's operations, the filter and the step constructor as arguments; so does the
  model. The frontier is the list of the steps it holds, \<open>getStep\<close> returns the removed
  step and the remaining frontier, \<open>addStep\<close> the extended frontier. The filter of the
  priority queue updates a table of its own, so a filter takes and returns its state.
  The digest \<open>crypto.createHash('md5').update(s).digest('hex')\<close> is the parameter
  \<open>md5\<close>.

  The two nested \<open>for\<close> loops run over the index pairs in the order \<open>pairs\<close> lists them,
  \<open>i\<close> outer and \<open>j\<close> inner. The number of flasks of the step's puzzle does not change
  while they run. \<open>expand\<close> is the two loops: it ends with \<open>Found\<close> at the \<open>return\<close>, or
  with the visited set, the frontier and the filter's state as the loops leave them.
\<close>

datatype ('d, 's, 'f) scan = Found "move list" | Frontier "'d set" "'s list" 'f

definition pairs :: "nat \<Rightarrow> move list" where
  "pairs n = concat (map (\<lambda>i. map (\<lambda>j. (int i, int j)) [0..<n]) [0..<n])"

fun expand ::
  "nat \<Rightarrow> (string \<Rightarrow> 'd) \<Rightarrow> ('f \<Rightarrow> 'a StackStep_scheme \<Rightarrow> bool \<times> 'f)
   \<Rightarrow> ('a StackStep_scheme \<Rightarrow> 'a StackStep_scheme list \<Rightarrow> 'a StackStep_scheme list)
   \<Rightarrow> (heap \<Rightarrow> 'a StackStep_scheme \<Rightarrow> puzzle \<Rightarrow> move \<Rightarrow> 'a StackStep_scheme)
   \<Rightarrow> 'a StackStep_scheme \<Rightarrow> move list
   \<Rightarrow> 'd set \<Rightarrow> 'a StackStep_scheme list \<Rightarrow> 'f \<Rightarrow> heap
   \<Rightarrow> ('d, 'a StackStep_scheme, 'f) scan result" where
  "expand C md5 preliminaryFilter addStep initializeNextStep step [] visited stackOrQueue fs h =
     (Inr (Frontier visited stackOrQueue fs), h)"
| "expand C md5 preliminaryFilter addStep initializeNextStep step ((i, j) # ijs)
     visited stackOrQueue fs h =
     (case Puzzle_isTransfusionValid C h (puzzle step) i j of
        Inl e \<Rightarrow> (Inl e, h)
      | Inr False \<Rightarrow>
          expand C md5 preliminaryFilter addStep initializeNextStep step ijs
            visited stackOrQueue fs h
      | Inr True \<Rightarrow>
          (case Puzzle_copy C (puzzle step) h of
             (Inl e, h1) \<Rightarrow> (Inl e, h1)
           | (Inr state, h1) \<Rightarrow>
               (case Puzzle_transfuse C state i j h1 of
                  (Inl e, h2) \<Rightarrow> (Inl e, h2)
                | (Inr u, h2) \<Rightarrow>
                    (let nextFingerprint = md5 (toStringWithSort h2 state) in
                     if nextFingerprint \<in> visited
                     then expand C md5 preliminaryFilter addStep initializeNextStep step ijs
                            visited stackOrQueue fs h2
                     else
                       (let visited1 = insert nextFingerprint visited;
                            nextStep = initializeNextStep h2 step state (i, j) in
                        if isSolved C h2 (puzzle nextStep)
                        then (Inr (Found (transfusions nextStep)), h2)
                        else
                          (case preliminaryFilter fs nextStep of
                             (True, fs1) \<Rightarrow>
                               expand C md5 preliminaryFilter addStep initializeNextStep step ijs
                                 visited1 (addStep nextStep stackOrQueue) fs1 h2
                           | (False, fs1) \<Rightarrow>
                               expand C md5 preliminaryFilter addStep initializeNextStep step ijs
                                 visited1 stackOrQueue fs1 h2))))))"

text \<open>The \<open>while\<close> loop. It may run for ever as far as its definition goes, so it is a
  partial function: \<open>None\<close> stands for a run that does not end. An ended run gives
  \<open>Some\<close> of the thrown error or of the returned value (\<open>None\<close> for \<open>undefined\<close>, when
  the frontier is exhausted), with the final store.\<close>

partial_function (option) searchLoop ::
  "nat \<Rightarrow> (string \<Rightarrow> 'd) \<Rightarrow> ('f \<Rightarrow> 'a StackStep_scheme \<Rightarrow> bool \<times> 'f)
   \<Rightarrow> ('a StackStep_scheme list \<Rightarrow> 'a StackStep_scheme \<times> 'a StackStep_scheme list)
   \<Rightarrow> ('a StackStep_scheme \<Rightarrow> 'a StackStep_scheme list \<Rightarrow> 'a StackStep_scheme list)
   \<Rightarrow> (heap \<Rightarrow> 'a StackStep_scheme \<Rightarrow> puzzle \<Rightarrow> move \<Rightarrow> 'a StackStep_scheme)
   \<Rightarrow> 'd set \<Rightarrow> 'a StackStep_scheme list \<Rightarrow> 'f \<Rightarrow> heap
   \<Rightarrow> (move list option) result option" where
  "searchLoop C md5 preliminaryFilter getStep addStep initializeNextStep
     visited stackOrQueue fs h =
     (if length stackOrQueue > 0 then
        (case getStep stackOrQueue of
           (step, q1) \<Rightarrow>
             (case preliminaryFilter fs step of
                (ok, fs1) \<Rightarrow>
                  if \<not> ok then
                    searchLoop C md5 preliminaryFilter getStep addStep initializeNextStep
                      visited q1 fs1 h
                  else
                    (case expand C md5 preliminaryFilter addStep initializeNextStep step
                            (pairs (length (puzzle step))) visited q1 fs1 h of
                       (Inl e, h1) \<Rightarrow> Some (Inl e, h1)
                     | (Inr (Found ts), h1) \<Rightarrow> Some (Inr (Some ts), h1)
                     | (Inr (Frontier visited2 q2 fs2), h1) \<Rightarrow>
                         searchLoop C md5 preliminaryFilter getStep addStep initializeNextStep
                           visited2 q2 fs2 h1)))
      else Some (Inr None, h))"

declare searchLoop.simps [code]

definition solveUsingPriorityQueueOrStack ::
  "nat \<Rightarrow> (string \<Rightarrow> 'd) \<Rightarrow> puzzle \<Rightarrow> 'a StackStep_scheme list
   \<Rightarrow> ('f \<Rightarrow> 'a StackStep_scheme \<Rightarrow> bool \<times> 'f) \<Rightarrow> 'f
   \<Rightarrow> ('a StackStep_scheme list \<Rightarrow> 'a StackStep_scheme \<times> 'a StackStep_scheme list)
   \<Rightarrow> ('a StackStep_scheme \<Rightarrow> 'a StackStep_scheme list \<Rightarrow> 'a StackStep_scheme list)
   \<Rightarrow> (heap \<Rightarrow> 'a StackStep_scheme \<Rightarrow> puzzle \<Rightarrow> move \<Rightarrow> 'a StackStep_scheme)
   \<Rightarrow> heap \<Rightarrow> (move list option) result option" where
  "solveUsingPriorityQueueOrStack C md5 p stackOrQueue preliminaryFilter fs
     getStep addStep initializeNextStep h =
     searchLoop C md5 preliminaryFilter getStep addStep initializeNextStep
       {md5 (toStringWithSort h p)} stackOrQueue fs h"

subsection \<open>The stack search\<close>

definition pop :: "'s list \<Rightarrow> 's \<times> 's list" where
  "pop stack = (last stack, butlast stack)"

definition push :: "'s \<Rightarrow> 's list \<Rightarrow> 's list" where
  "push x stack = stack @ [x]"

definition solveUsingStack ::
  "nat \<Rightarrow> (string \<Rightarrow> 'd) \<Rightarrow> puzzle \<Rightarrow> heap \<Rightarrow> (move list option) result option" where
  "solveUsingStack C md5 p h =
     solveUsingPriorityQueueOrStack C md5 p
       [\<lparr>puzzle = p, transfusions = []\<rparr>]
       (\<lambda>fs step. (True, fs)) ()
       pop push
       (\<lambda>h step state nextTransfusion.
          \<lparr>puzzle = state, transfusions = transfusions step @ [nextTransfusion]\<rparr>)
       h"

subsection \<open>The priority-queue search\<close>

text \<open>
  The queue comes from the package js-priority-queue, which is not part of the
  repository. Its three operations used here are parameters: the constructor with
  \<open>initialValues\<close>, \<open>dequeue\<close> and \<open>queue\<close>, each given the comparator the source
  passes to the constructor. The queue is the list of the steps it holds.
\<close>

record 's PriorityQueue =
  create :: "('s \<Rightarrow> 's \<Rightarrow> int) \<Rightarrow> 's list \<Rightarrow> 's list"
  dequeue :: "('s \<Rightarrow> 's \<Rightarrow> int) \<Rightarrow> 's list \<Rightarrow> 's \<times> 's list"
  queue :: "('s \<Rightarrow> 's \<Rightarrow> int) \<Rightarrow> 's \<Rightarrow> 's list \<Rightarrow> 's list"

definition comparator :: "PriorityQueueStep \<Rightarrow> PriorityQueueStep \<Rightarrow> int" where
  "comparator a b =
     (if length (transfusions a) \<noteq> length (transfusions b)
      then int (length (transfusions a)) - int (length (transfusions b))
      else int (metric b) - int (metric a))"

text \<open>The filter of the priority-queue search, with \<open>metricMap\<close> as its state.\<close>

definition metricFilter ::
  "nat \<Rightarrow> (nat \<rightharpoonup> nat) \<Rightarrow> PriorityQueueStep \<Rightarrow> bool \<times> (nat \<rightharpoonup> nat)" where
  "metricFilter maxAllowedMetricDelta metricMap step =
     (case metricMap (length (transfusions step)) of
        Some maxMetric \<Rightarrow>
          if maxMetric > metric step + maxAllowedMetricDelta then (False, metricMap)
          else if maxMetric < metric step
          then (True, metricMap(length (transfusions step) \<mapsto> metric step))
          else (True, metricMap)
      | None \<Rightarrow> (True, metricMap(length (transfusions step) \<mapsto> metric step)))"

definition solveUsingPriorityQueue ::
  "nat \<Rightarrow> (string \<Rightarrow> 'd) \<Rightarrow> PriorityQueueStep PriorityQueue \<Rightarrow> puzzle \<Rightarrow> nat \<Rightarrow> heap
   \<Rightarrow> (move list option) result option" where
  "solveUsingPriorityQueue C md5 pq p maxAllowedMetricDelta h =
     solveUsingPriorityQueueOrStack C md5 p
       (create pq comparator
          [\<lparr>puzzle = p, transfusions = [], metric = calculateSolutionMetric h p\<rparr>])
       (metricFilter maxAllowedMetricDelta) Map.empty
       (dequeue pq comparator) (queue pq comparator)
       (\<lambda>h step state nextTransfusion.
          \<lparr>puzzle = state, transfusions = transfusions step @ [nextTransfusion],
           metric = calculateSolutionMetric h state\<rparr>)
       h"

subsection \<open>\<open>solve\<close>\<close>

text \<open>
  The constants \<open>DefaultEmptyFlasksNumber\<close> and \<open>MaxEmptyFlasksNumber\<close> (files under
  constants/) are parameters. \<open>solveFrom\<close> is the \<open>for\<close> loop of \<open>solve\<close> from the
  counter value \<open>i\<close> on; the values of \<open>SolvingMethod\<close> are the strings of
  constants/solving-method.const.js, and any other string takes the \<open>default\<close> branch of
  the \<open>switch\<close>. The result is the pair \<open>[ solution, i ]\<close>.
\<close>

function solveFrom ::
  "nat \<Rightarrow> nat \<Rightarrow> (string \<Rightarrow> 'd) \<Rightarrow> PriorityQueueStep PriorityQueue \<Rightarrow> layers list \<Rightarrow> string
   \<Rightarrow> nat \<Rightarrow> heap \<Rightarrow> (move list option \<times> nat) result option" where
  "solveFrom C MaxEmptyFlasksNumber md5 pq matrix solvingMethod i h =
     (if i \<le> MaxEmptyFlasksNumber then
        (case Puzzle_new C (matrix @ replicate i []) h of
           (Inl e, h1) \<Rightarrow> Some (Inl e, h1)
         | (Inr p, h1) \<Rightarrow>
             (case (if solvingMethod = ''shortest''
                    then solveUsingPriorityQueue C md5 pq p 1 h1
                    else if solvingMethod = ''balanced''
                    then solveUsingPriorityQueue C md5 pq p 0 h1
                    else solveUsingStack C md5 p h1) of
                None \<Rightarrow> None
              | Some (Inl e, h2) \<Rightarrow> Some (Inl e, h2)
              | Some (Inr (Some solution), h2) \<Rightarrow> Some (Inr (Some solution, i), h2)
              | Some (Inr None, h2) \<Rightarrow>
                  solveFrom C MaxEmptyFlasksNumber md5 pq matrix solvingMethod (i + 1) h2))
      else Some (Inr (None, i), h))"
  by pat_completeness auto
termination
  by (relation "measure (\<lambda>(C, mx, md5, pq, matrix, solvingMethod, i, h). Suc mx - i)") auto

declare solveFrom.simps [simp del]

definition solve ::
  "nat \<Rightarrow> nat \<Rightarrow> nat \<Rightarrow> (string \<Rightarrow> 'd) \<Rightarrow> PriorityQueueStep PriorityQueue \<Rightarrow> layers list
   \<Rightarrow> string \<Rightarrow> heap \<Rightarrow> (move list option \<times> nat) result option" where
  "solve C DefaultEmptyFlasksNumber MaxEmptyFlasksNumber md5 pq matrix solvingMethod h =
     solveFrom C MaxEmptyFlasksNumber md5 pq matrix solvingMethod DefaultEmptyFlasksNumber h"

text \<open>Replaying a list of transfusions on a puzzle, as the solver's test does with
  \<open>reduce\<close>: the first throwing call ends the replay.\<close>

fun replay :: "nat \<Rightarrow> puzzle \<Rightarrow> move list \<Rightarrow> heap \<Rightarrow> unit result" where
  "replay C p [] h = (Inr (), h)"
| "replay C p ((i, j) # ts) h =
     (case Puzzle_transfuse C p i j h of
        (Inl e, h1) \<Rightarrow> (Inl e, h1)
      | (Inr u, h1) \<Rightarrow> replay C p ts h1)"

text \<open>A priority queue to run the search with: the steps in insertion order, \<open>dequeue\<close>
  takes out the first step that no other step precedes under the comparator.\<close>

fun minStep :: "('s \<Rightarrow> 's \<Rightarrow> int) \<Rightarrow> 's \<Rightarrow> 's list \<Rightarrow> 's" where
  "minStep cmp x [] = x"
| "minStep cmp x (y # ys) = minStep cmp (if cmp y x < 0 then y else x) ys"

definition listQueue :: "'s PriorityQueue" where
  "listQueue =
     \<lparr>create = (\<lambda>cmp xs. xs),
      dequeue = (\<lambda>cmp q. (minStep cmp (hd q) (tl q), remove1 (minStep cmp (hd q) (tl q)) q)),
      queue = (\<lambda>cmp x q. q @ [x])\<rparr>"

section \<open>The specification's dispatch, for comparison\<close>

text \<open>
  The specification maps the method to a search as follows: "fastest" to the depth-first
  search, "balanced" to the priority search with tolerance 1, "shortest" to the priority
  search with tolerance 0. \<open>specTolerance\<close> is that mapping (\<open>None\<close> for the
  depth-first search); \<open>codeTolerance\<close> is the mapping with the two tolerances
  exchanged. \<open>solveWith\<close> is the driver of the specification's section 4.6 for a
  given mapping: it tries the counts from the minimum to the maximum, returns the first
  solution with its count, and reports the absent solution with the count the loop has
  reached.
\<close>

definition specTolerance :: "string \<Rightarrow> nat option" where
  "specTolerance method =
     (if method = ''fastest'' then None
      else if method = ''balanced'' then Some 1
      else if method = ''shortest'' then Some 0
      else None)"

definition codeTolerance :: "string \<Rightarrow> nat option" where
  "codeTolerance method =
     (if method = ''shortest'' then Some 1
      else if method = ''balanced'' then Some 0
      else None)"

function solveWithFrom ::
  "(string \<Rightarrow> nat option) \<Rightarrow> nat \<Rightarrow> nat \<Rightarrow> (string \<Rightarrow> 'd) \<Rightarrow> PriorityQueueStep PriorityQueue
   \<Rightarrow> layers list \<Rightarrow> string \<Rightarrow> nat \<Rightarrow> heap \<Rightarrow> (move list option \<times> nat) result option" where
  "solveWithFrom tolerance C bound md5 pq matrix method i h =
     (if i \<le> bound then
        (case Puzzle_new C (matrix @ replicate i []) h of
           (Inl e, h1) \<Rightarrow> Some (Inl e, h1)
         | (Inr p, h1) \<Rightarrow>
             (case (case tolerance method of
                      None \<Rightarrow> solveUsingStack C md5 p h1
                    | Some delta \<Rightarrow> solveUsingPriorityQueue C md5 pq p delta h1) of
                None \<Rightarrow> None
              | Some (Inl e, h2) \<Rightarrow> Some (Inl e, h2)
              | Some (Inr (Some solution), h2) \<Rightarrow> Some (Inr (Some solution, i), h2)
              | Some (Inr None, h2) \<Rightarrow>
                  solveWithFrom tolerance C bound md5 pq matrix method (i + 1) h2))
      else Some (Inr (None, i), h))"
  by pat_completeness auto
termination
  by (relation "measure (\<lambda>(tolerance, C, bound, md5, pq, matrix, method, i, h). Suc bound - i)")
    auto

declare solveWithFrom.simps [simp del]

definition solveWith ::
  "(string \<Rightarrow> nat option) \<Rightarrow> nat \<Rightarrow> nat \<Rightarrow> nat \<Rightarrow> (string \<Rightarrow> 'd)
   \<Rightarrow> PriorityQueueStep PriorityQueue \<Rightarrow> layers list \<Rightarrow> string \<Rightarrow> heap
   \<Rightarrow> (move list option \<times> nat) result option" where
  "solveWith tolerance C minimum bound md5 pq matrix method h =
     solveWithFrom tolerance C bound md5 pq matrix method minimum h"

section \<open>Notions used in the proofs\<close>

text \<open>A puzzle object of a store: its flasks are different objects of the store, each
  within capacity. Every puzzle the constructor returns is one.\<close>

definition Puzzle_ok :: "nat \<Rightarrow> heap \<Rightarrow> puzzle \<Rightarrow> bool" where
  "Puzzle_ok C h p = (distinct p \<and> (\<forall>f \<in> set p. f < length h \<and> length (h ! f) \<le> C))"

text \<open>The contents of a puzzle, detached from the store: legality of a transfusion
  between two different rows of a matrix of layers, its effect, the solved matrices, and
  the matrix a list of transfusions leads to (\<open>None\<close> when one of them is not legal).\<close>

definition validM :: "nat \<Rightarrow> layers list \<Rightarrow> nat \<Rightarrow> nat \<Rightarrow> bool" where
  "validM C M i j =
     (i < length M \<and> j < length M \<and> i \<noteq> j \<and> M ! i \<noteq> [] \<and> length (M ! j) \<noteq> C
      \<and> (M ! j = [] \<or> last (M ! j) = last (M ! i)))"

definition transfuseM :: "nat \<Rightarrow> layers list \<Rightarrow> nat \<Rightarrow> nat \<Rightarrow> layers list" where
  "transfuseM C M i j =
     (let k = min (topRun (M ! i)) (C - length (M ! j))
      in M[i := take (length (M ! i) - k) (M ! i), j := M ! j @ replicate k (last (M ! i))])"

definition solvedM :: "nat \<Rightarrow> layers list \<Rightarrow> bool" where
  "solvedM C M = list_all (\<lambda>ls. ls = [] \<or> (length ls = C \<and> list_all (\<lambda>x. x = hd ls) ls)) M"

fun replayM :: "nat \<Rightarrow> layers list \<Rightarrow> move list \<Rightarrow> layers list option" where
  "replayM C M [] = Some M"
| "replayM C M ((i, j) # ts) =
     (if 0 \<le> i \<and> 0 \<le> j \<and> validM C M (nat i) (nat j)
      then replayM C (transfuseM C M (nat i) (nat j)) ts else None)"

text \<open>The string form behind the fingerprint, as a function of the contents; the
  matrices of \<open>N\<close> rows within capacity over a set of colours, and their fingerprints.\<close>

definition canonM :: "layers list \<Rightarrow> string" where
  "canonM M = join [CHR 0x0A] (sort (map (\<lambda>ls. join '','' (map showInt ls)) M))"

definition inU :: "nat \<Rightarrow> nat \<Rightarrow> color set \<Rightarrow> layers list \<Rightarrow> bool" where
  "inU C N A M = (length M = N \<and> (\<forall>ls \<in> set M. length ls \<le> C \<and> set ls \<subseteq> A))"

definition fingerprints :: "(string \<Rightarrow> 'd) \<Rightarrow> nat \<Rightarrow> nat \<Rightarrow> color set \<Rightarrow> 'd set" where
  "fingerprints md5 C N A = (\<lambda>M. md5 (canonM M)) ` {M. inU C N A M}"

text \<open>What the proofs need of a frontier and of a step constructor: removing a step
  gives a step of the frontier and leaves a shorter frontier of steps it held; adding a
  step adds at most that step; a new step carries the state it is given and the
  transfusions of its parent followed by the new one.\<close>

definition getStep_ok :: "('s list \<Rightarrow> 's \<times> 's list) \<Rightarrow> bool" where
  "getStep_ok getStep =
     (\<forall>q. q \<noteq> [] \<longrightarrow> fst (getStep q) \<in> set q \<and> set (snd (getStep q)) \<subseteq> set q
            \<and> length (snd (getStep q)) < length q)"

definition addStep_ok :: "('s \<Rightarrow> 's list \<Rightarrow> 's list) \<Rightarrow> bool" where
  "addStep_ok addStep =
     (\<forall>x q. set (addStep x q) \<subseteq> insert x (set q) \<and> length (addStep x q) \<le> Suc (length q))"

definition init_ok ::
  "(heap \<Rightarrow> 'a StackStep_scheme \<Rightarrow> puzzle \<Rightarrow> move \<Rightarrow> 'a StackStep_scheme) \<Rightarrow> bool" where
  "init_ok init =
     (\<forall>h step state t. puzzle (init h step state t) = state
        \<and> transfusions (init h step state t) = transfusions step @ [t])"

definition PriorityQueue_ok :: "'s PriorityQueue \<Rightarrow> bool" where
  "PriorityQueue_ok pq =
     (\<forall>cmp. (\<forall>xs. set (create pq cmp xs) \<subseteq> set xs)
        \<and> (\<forall>q. q \<noteq> [] \<longrightarrow> fst (dequeue pq cmp q) \<in> set q
                \<and> set (snd (dequeue pq cmp q)) \<subseteq> set q
                \<and> length (snd (dequeue pq cmp q)) < length q)
        \<and> (\<forall>x q. set (queue pq cmp x q) \<subseteq> insert x (set q)
                \<and> length (queue pq cmp x q) \<le> Suc (length q)))"

text \<open>The number of layers held by all flasks of a store.\<close>

definition totalLayers :: "heap \<Rightarrow> nat" where
  "totalLayers h = sum_list (map length h)"

text \<open>The invariant of a step of the frontier, for a search started on contents \<open>M0\<close>:
  its puzzle is a puzzle of the store, and its contents are what the step's
  transfusions make of \<open>M0\<close>. \<open>scanPost\<close> is what the two \<open>for\<close> loops establish: a
  returned list of transfusions leads from \<open>M0\<close> to a solved matrix; otherwise the
  frontier consists of such steps, and the number of fingerprints not yet visited plus
  the length of the frontier is at most \<open>n\<close>.\<close>

definition goodStep ::
  "nat \<Rightarrow> nat \<Rightarrow> color set \<Rightarrow> layers list \<Rightarrow> heap \<Rightarrow> 'a StackStep_scheme \<Rightarrow> bool" where
  "goodStep C N A M0 h s =
     (distinct (puzzle s) \<and> (\<forall>f \<in> set (puzzle s). f < length h)
      \<and> inU C N A (layersMatrix h (puzzle s))
      \<and> replayM C M0 (transfusions s) = Some (layersMatrix h (puzzle s)))"

definition scanPost ::
  "(string \<Rightarrow> 'd) \<Rightarrow> nat \<Rightarrow> nat \<Rightarrow> color set \<Rightarrow> layers list \<Rightarrow> nat \<Rightarrow> heap
   \<Rightarrow> ('d, 'a StackStep_scheme, 'f) scan \<Rightarrow> bool" where
  "scanPost md5 C N A M0 n h' sc =
     (case sc of
        Found ts \<Rightarrow> (\<exists>M'. replayM C M0 ts = Some M' \<and> solvedM C M')
      | Frontier v' q' fs' \<Rightarrow>
          (\<forall>s \<in> set q'. goodStep C N A M0 h' s)
          \<and> card (fingerprints md5 C N A - v') + length q' \<le> n)"

section \<open>Properties of a transfusion between two flasks\<close>

text \<open>The run counted at the top of a flask: it is a block of layers equal to the top
  layer, and it is maximal.\<close>

lemma countSame_le: "countSame t xs \<le> length xs"
  by (induction xs) auto

lemma countSame_take: "take (countSame t xs) xs = replicate (countSame t xs) t"
  by (induction xs) auto

lemma countSame_stop: "countSame t xs < length xs \<Longrightarrow> xs ! countSame t xs \<noteq> t"
  by (induction xs) auto

lemma topRun_le: "topRun ls \<le> length ls"
  using countSame_le [of "last ls" "rev ls"] by (simp add: topRun_def)

lemma topRun_pos: "ls \<noteq> [] \<Longrightarrow> 0 < topRun ls"
  by (cases ls rule: rev_cases) (simp_all add: topRun_def)

lemma topRun_drop:
  "drop (length ls - topRun ls) ls = replicate (topRun ls) (last ls)"
proof -
  have "rev (take (topRun ls) (rev ls)) = rev (replicate (topRun ls) (last ls))"
    unfolding topRun_def by (simp only: countSame_take)
  then show ?thesis
    by (simp add: rev_take)
qed

lemma topRun_stop:
  assumes "topRun ls < length ls"
  shows "ls ! (length ls - topRun ls - 1) \<noteq> last ls"
proof -
  have "rev ls ! topRun ls \<noteq> last ls"
    using assms countSame_stop [of "last ls" "rev ls"] by (simp add: topRun_def)
  then show ?thesis
    using assms by (simp add: rev_nth)
qed

text \<open>The moving loop in closed form, for one flask and for two different flasks.\<close>

lemma length_pour [simp]: "length (pour n s d h) = length h"
  by (induction n s d h rule: pour.induct) (auto simp: Let_def)

lemma pour_same:
  "s < length h \<Longrightarrow> h ! s \<noteq> [] \<Longrightarrow> pour n s s h = h"
  by (induction n arbitrary: h) (auto simp: Let_def)

lemma pour_distinct:
  "s < length h \<Longrightarrow> d < length h \<Longrightarrow> s \<noteq> d \<Longrightarrow> n \<le> length (h ! s) \<Longrightarrow>
   pour n s d h =
     h[s := take (length (h ! s) - n) (h ! s),
       d := h ! d @ rev (drop (length (h ! s) - n) (h ! s))]"
proof (induction n arbitrary: h)
  case 0
  then show ?case by (simp add: list_update_same_conv)
next
  case (Suc n)
  let ?src = "h ! s"
  from Suc.prems have ne: "?src \<noteq> []" by auto
  let ?h2 = "h[s := butlast ?src, d := h ! d @ [last ?src]]"
  have step: "pour (Suc n) s d h = pour n s d ?h2"
    using ne Suc.prems by (simp add: Let_def)
  have s2: "?h2 ! s = butlast ?src" and d2: "?h2 ! d = h ! d @ [last ?src]"
    using Suc.prems by simp_all
  have "pour n s d ?h2 =
      ?h2[s := take (length (?h2 ! s) - n) (?h2 ! s),
          d := ?h2 ! d @ rev (drop (length (?h2 ! s) - n) (?h2 ! s))]"
    using Suc.prems by (intro Suc.IH) simp_all
  also have "\<dots> = h[s := take (length ?src - Suc n) ?src,
          d := h ! d @ rev (drop (length ?src - Suc n) ?src)]"
  proof -
    have a: "take (length (butlast ?src) - n) (butlast ?src) = take (length ?src - Suc n) ?src"
      using Suc.prems by (simp add: butlast_conv_take)
    have "drop (length ?src - Suc n) ?src = drop (length ?src - Suc n) (butlast ?src @ [last ?src])"
      using ne by simp
    also have "\<dots> = drop (length ?src - Suc n) (butlast ?src) @ [last ?src]"
      using Suc.prems by simp
    finally have b: "last ?src # rev (drop (length (butlast ?src) - n) (butlast ?src))
        = rev (drop (length ?src - Suc n) ?src)"
      by simp
    show ?thesis
      unfolding s2 d2 using a b Suc.prems
      by (simp add: list_update_swap [of s d])
  qed
  finally show ?case using step by simp
qed

lemma Flask_transfuse_distinct:
  assumes "s < length h" "d < length h" "s \<noteq> d" "Flask_isTransfusionValid C h s d"
  shows "Flask_transfuse C s d h =
           (Inr (), h[s := take (length (h ! s) - min (topRun (h ! s)) (C - length (h ! d))) (h ! s),
                      d := h ! d @ replicate (min (topRun (h ! s)) (C - length (h ! d))) (last (h ! s))])"
proof -
  let ?k = "min (topRun (h ! s)) (C - length (h ! d))"
  have k: "nat (min (int C - int (length (h ! d))) (int (topRun (h ! s)))) = ?k"
    by (auto simp: min_def)
  have kle: "?k \<le> length (h ! s)"
    using topRun_le [of "h ! s"] by simp
  have "drop (length (h ! s) - ?k) (h ! s) = replicate ?k (last (h ! s))"
  proof -
    have "drop (length (h ! s) - ?k) (h ! s)
        = drop (topRun (h ! s) - ?k) (drop (length (h ! s) - topRun (h ! s)) (h ! s))"
      using topRun_le [of "h ! s"] by (simp add: min_def)
    then show ?thesis
      by (simp add: topRun_drop min_def)
  qed
  then show ?thesis
    using assms kle by (simp add: Flask_transfuse_def Let_def k pour_distinct)
qed

lemma Flask_transfuse_self:
  assumes "s < length h"
  shows "Flask_transfuse C s s h =
     (if h ! s = [] \<or> length (h ! s) = C then (Inl InvalidTransfusion, h) else (Inr (), h))"
  using assms
  by (auto simp: Flask_transfuse_def Flask_isTransfusionValid_def isEmpty_def isFull_def
      Let_def pour_same)

text \<open>What a transfusion leaves alone, and the capacity bound it keeps, for any two
  references, equal or not, valid or not.\<close>

lemma Flask_transfuse_frame:
  assumes "s < length h" "d < length h" "Flask_transfuse C s d h = (r, h')"
  shows "length h' = length h \<and> (\<forall>f. f \<noteq> s \<and> f \<noteq> d \<longrightarrow> h' ! f = h ! f)"
proof (cases "Flask_isTransfusionValid C h s d")
  case False
  with assms show ?thesis by (simp add: Flask_transfuse_def)
next
  case True
  show ?thesis
  proof (cases "s = d")
    case True
    with assms show ?thesis
      by (auto simp: Flask_transfuse_self split: if_splits)
  next
    case False
    with assms True show ?thesis
      by (auto simp: Flask_transfuse_distinct)
  qed
qed

lemma Flask_transfuse_capacity:
  assumes "s < length h" "d < length h" "Flask_transfuse C s d h = (r, h')"
    and "length (h ! s) \<le> C" "length (h ! d) \<le> C"
  shows "length (h' ! s) \<le> C \<and> length (h' ! d) \<le> C"
proof (cases "Flask_isTransfusionValid C h s d")
  case False
  with assms show ?thesis by (simp add: Flask_transfuse_def)
next
  case True
  show ?thesis
  proof (cases "s = d")
    case True
    with assms show ?thesis
      by (auto simp: Flask_transfuse_self split: if_splits)
  next
    case False
    with assms True show ?thesis
      by (auto simp: Flask_transfuse_distinct)
  qed
qed

text \<open>The rendering used for the fingerprint depends on the layers of the puzzle only.\<close>

lemma toStringWithSort_layersMatrix:
  "toStringWithSort h p =
     join [CHR 0x0A] (sort (map (\<lambda>ls. join '','' (map showInt ls)) (layersMatrix h p)))"
  by (simp add: toStringWithSort_def layersMatrix_def comp_def Flask_toString_def [abs_def])

section \<open>The contents of a puzzle and the store\<close>

lemma Puzzle_new_ok:
  "\<forall>ls \<in> set M. length ls \<le> C \<Longrightarrow>
   Puzzle_new C M h = (Inr [length h..<length h + length M], h @ M)"
proof (induction M arbitrary: h)
  case Nil
  then show ?case by simp
next
  case (Cons ls M)
  have "Puzzle_new C M (h @ [ls]) =
      (Inr [length (h @ [ls])..<length (h @ [ls]) + length M], (h @ [ls]) @ M)"
    using Cons.prems by (intro Cons.IH) simp
  moreover have "[length h..<length h + Suc (length M)]
      = length h # [Suc (length h)..<Suc (length h) + length M]"
    by (simp add: upt_conv_Cons del: upt_Suc)
  ultimately show ?case
    using Cons.prems by (simp add: Flask_new_def del: upt_Suc)
qed

lemma Puzzle_new_overlimit:
  "\<not> (\<forall>ls \<in> set M. length ls \<le> C) \<Longrightarrow> \<exists>h'. Puzzle_new C M h = (Inl FlaskOverLimit, h')"
proof (induction M arbitrary: h)
  case Nil
  then show ?case by simp
next
  case (Cons ls M)
  show ?case
  proof (cases "length ls \<le> C")
    case True
    with Cons.prems have "\<not> (\<forall>ls \<in> set M. length ls \<le> C)" by simp
    from Cons.IH [OF this, of "h @ [ls]"] True show ?thesis
      by (auto simp: Flask_new_def)
  next
    case False
    then show ?thesis by (simp add: Flask_new_def)
  qed
qed

lemma layersMatrix_fresh:
  "layersMatrix (h @ M) [length h..<length h + length M] = M"
  unfolding layersMatrix_def by (rule nth_equalityI) (simp_all add: nth_append)

lemma layersMatrix_prefix:
  "prefix h h' \<Longrightarrow> \<forall>f \<in> set p. f < length h \<Longrightarrow> layersMatrix h' p = layersMatrix h p"
  by (auto simp: layersMatrix_def prefix_def nth_append)

lemma length_layersMatrix [simp]: "length (layersMatrix h p) = length p"
  by (simp add: layersMatrix_def)

lemma nth_layersMatrix [simp]: "i < length p \<Longrightarrow> layersMatrix h p ! i = h ! (p ! i)"
  by (simp add: layersMatrix_def)

lemma Puzzle_isTransfusionValid_validM:
  "i < length p \<Longrightarrow> j < length p \<Longrightarrow>
   Puzzle_isTransfusionValid C h p (int i) (int j) = Inr (validM C (layersMatrix h p) i j)"
  by (auto simp: Puzzle_isTransfusionValid_def outOfBounds_def validM_def
      Flask_isTransfusionValid_def isEmpty_def isFull_def)

lemma Puzzle_transfuse_transfuseM:
  assumes "distinct p" "\<forall>f \<in> set p. f < length h" "validM C (layersMatrix h p) i j"
  shows "\<exists>h'. Puzzle_transfuse C p (int i) (int j) h = (Inr (), h')
           \<and> layersMatrix h' p = transfuseM C (layersMatrix h p) i j
           \<and> length h' = length h \<and> (\<forall>f. f \<notin> set p \<longrightarrow> h' ! f = h ! f)"
proof -
  from assms(3) have ij: "i < length p" "j < length p" "i \<noteq> j"
    by (simp_all add: validM_def)
  let ?s = "p ! i" and ?d = "p ! j"
  have sd: "?s < length h" "?d < length h" "?s \<noteq> ?d"
    using assms(1,2) ij by (simp_all add: nth_eq_iff_index_eq)
  have v: "Flask_isTransfusionValid C h ?s ?d"
    using assms(3) ij
    by (auto simp: validM_def Flask_isTransfusionValid_def isEmpty_def isFull_def)
  let ?k = "min (topRun (h ! ?s)) (C - length (h ! ?d))"
  let ?h' = "h[?s := take (length (h ! ?s) - ?k) (h ! ?s),
               ?d := h ! ?d @ replicate ?k (last (h ! ?s))]"
  have t: "Puzzle_transfuse C p (int i) (int j) h = (Inr (), ?h')"
    using ij Flask_transfuse_distinct [OF sd v]
    by (simp add: Puzzle_transfuse_def outOfBounds_def)
  have m: "layersMatrix ?h' p = transfuseM C (layersMatrix h p) i j"
  proof (rule nth_equalityI)
    show "length (layersMatrix ?h' p) = length (transfuseM C (layersMatrix h p) i j)"
      by (simp add: transfuseM_def Let_def)
  next
    fix n assume "n < length (layersMatrix ?h' p)"
    then have n: "n < length p" by simp
    have eq: "p ! n = ?s \<longleftrightarrow> n = i" "p ! n = ?d \<longleftrightarrow> n = j"
      using assms(1) n ij by (simp_all add: nth_eq_iff_index_eq)
    show "layersMatrix ?h' p ! n = transfuseM C (layersMatrix h p) i j ! n"
      using n ij sd assms(2) eq
      by (auto simp: transfuseM_def Let_def nth_list_update)
  qed
  have mem: "?s \<in> set p" "?d \<in> set p"
    using ij by simp_all
  have f: "\<forall>f. f \<notin> set p \<longrightarrow> ?h' ! f = h ! f"
  proof (intro allI impI)
    fix f assume "f \<notin> set p"
    then have "?s \<noteq> f" "?d \<noteq> f" using mem by auto
    then show "?h' ! f = h ! f" by simp
  qed
  show ?thesis
    using t m f by simp
qed

lemma isSolved_solvedM: "isSolved C h p = solvedM C (layersMatrix h p)"
  by (simp add: isSolved_def solvedM_def layersMatrix_def isInFinalState_def isEmpty_def
      isFull_def list_ex_iff list_all_iff)

lemma toStringWithSort_canonM: "toStringWithSort h p = canonM (layersMatrix h p)"
  by (simp add: toStringWithSort_layersMatrix canonM_def)

lemma finite_inU:
  assumes "finite A"
  shows "finite {M. inU C N A M}"
proof -
  have r: "finite {ls. set ls \<subseteq> A \<and> length ls \<le> C}"
    using assms by (rule finite_lists_length_le)
  have "finite {M. set M \<subseteq> {ls. set ls \<subseteq> A \<and> length ls \<le> C} \<and> length M = N}"
    using r by (rule finite_lists_length_eq)
  moreover have "{M. inU C N A M}
      \<subseteq> {M. set M \<subseteq> {ls. set ls \<subseteq> A \<and> length ls \<le> C} \<and> length M = N}"
    by (auto simp: inU_def)
  ultimately show ?thesis
    by (rule rev_finite_subset)
qed

lemma inU_transfuseM:
  assumes "inU C N A M" "validM C M i j"
  shows "inU C N A (transfuseM C M i j)"
proof -
  from assms(2) have ij: "i < length M" "j < length M" "M ! i \<noteq> []"
    by (simp_all add: validM_def)
  let ?k = "min (topRun (M ! i)) (C - length (M ! j))"
  let ?a = "take (length (M ! i) - ?k) (M ! i)"
  let ?b = "M ! j @ replicate ?k (last (M ! i))"
  have Mi: "length (M ! i) \<le> C" "set (M ! i) \<subseteq> A"
    and Mj: "length (M ! j) \<le> C" "set (M ! j) \<subseteq> A"
    using assms(1) ij by (auto simp: inU_def)
  have a: "length ?a \<le> C \<and> set ?a \<subseteq> A"
    using Mi by (auto dest: in_set_takeD)
  have "last (M ! i) \<in> A"
    using ij Mi by (metis last_in_set subsetD)
  then have b: "length ?b \<le> C \<and> set ?b \<subseteq> A"
    using Mj by auto
  have "\<forall>ls \<in> set (M[i := ?a, j := ?b]). length ls \<le> C \<and> set ls \<subseteq> A"
  proof
    fix ls assume "ls \<in> set (M[i := ?a, j := ?b])"
    then have "ls = ?b \<or> ls = ?a \<or> ls \<in> set M"
      using set_update_subset_insert [of "M[i := ?a]" j ?b]
        set_update_subset_insert [of M i ?a]
      by blast
    then show "length ls \<le> C \<and> set ls \<subseteq> A"
      using a b assms(1) by (auto simp: inU_def)
  qed
  then show ?thesis
    using assms(1) by (simp add: inU_def transfuseM_def Let_def)
qed

lemma replayM_append:
  "replayM C M (ts @ [(i, j)]) =
     (case replayM C M ts of
        None \<Rightarrow> None
      | Some M1 \<Rightarrow> if 0 \<le> i \<and> 0 \<le> j \<and> validM C M1 (nat i) (nat j)
                   then Some (transfuseM C M1 (nat i) (nat j)) else None)"
  by (induction C M ts rule: replayM.induct) auto

lemma replay_replayM:
  assumes "distinct p" "\<forall>f \<in> set p. f < length h"
    and "replayM C (layersMatrix h p) ts = Some M'"
  shows "\<exists>h'. replay C p ts h = (Inr (), h') \<and> layersMatrix h' p = M' \<and> length h' = length h"
  using assms(2,3)
proof (induction ts arbitrary: h)
  case Nil
  then show ?case by simp
next
  case (Cons t ts)
  obtain i j where t: "t = (i, j)" by (cases t)
  from Cons.prems(2) have v: "0 \<le> i" "0 \<le> j" "validM C (layersMatrix h p) (nat i) (nat j)"
    and r: "replayM C (transfuseM C (layersMatrix h p) (nat i) (nat j)) ts = Some M'"
    by (auto simp: t split: if_splits)
  from Puzzle_transfuse_transfuseM [OF assms(1) Cons.prems(1) v(3)] v(1,2)
  obtain h1 where h1: "Puzzle_transfuse C p i j h = (Inr (), h1)"
      "layersMatrix h1 p = transfuseM C (layersMatrix h p) (nat i) (nat j)"
      "length h1 = length h"
    by auto
  have "\<exists>h'. replay C p ts h1 = (Inr (), h') \<and> layersMatrix h' p = M' \<and> length h' = length h1"
    using Cons.prems(1) r h1 by (intro Cons.IH) simp_all
  then show ?case
    using h1 by (auto simp: t)
qed

section \<open>Termination and correctness of the search\<close>

lemma finite_fingerprints: "finite A \<Longrightarrow> finite (fingerprints md5 C N A)"
  by (simp add: fingerprints_def finite_inU)

lemma goodStep_prefix:
  assumes "goodStep C N A M0 h s" "prefix h h'"
  shows "goodStep C N A M0 h' s"
proof -
  have "length h \<le> length h'"
    using assms(2) by (rule prefix_length_le)
  moreover have "layersMatrix h' (puzzle s) = layersMatrix h (puzzle s)"
    using assms by (intro layersMatrix_prefix) (simp_all add: goodStep_def)
  ultimately show ?thesis
    using assms(1) by (fastforce simp: goodStep_def)
qed

lemma copy_then_transfuse:
  assumes g: "goodStep C N A M0 h step"
    and v: "validM C (layersMatrix h (puzzle step)) a b"
  shows "\<exists>st h1 h2. Puzzle_copy C (puzzle step) h = (Inr st, h1)
           \<and> Puzzle_transfuse C st (int a) (int b) h1 = (Inr (), h2)
           \<and> prefix h h2 \<and> distinct st \<and> (\<forall>f \<in> set st. f < length h2)
           \<and> layersMatrix h2 st = transfuseM C (layersMatrix h (puzzle step)) a b"
proof -
  let ?M = "layersMatrix h (puzzle step)"
  let ?st = "[length h..<length h + length ?M]"
  have rows: "\<forall>ls \<in> set ?M. length ls \<le> C"
    using g by (simp add: goodStep_def inU_def)
  have c: "Puzzle_copy C (puzzle step) h = (Inr ?st, h @ ?M)"
    unfolding Puzzle_copy_def using rows by (rule Puzzle_new_ok)
  have m1: "layersMatrix (h @ ?M) ?st = ?M"
    by (rule layersMatrix_fresh)
  have d: "distinct ?st" and r: "\<forall>f \<in> set ?st. f < length (h @ ?M)"
    by simp_all
  from Puzzle_transfuse_transfuseM [OF d r, of C a b] v m1
  obtain h2 where h2: "Puzzle_transfuse C ?st (int a) (int b) (h @ ?M) = (Inr (), h2)"
      "layersMatrix h2 ?st = transfuseM C ?M a b"
      "length h2 = length (h @ ?M)" "\<forall>f. f \<notin> set ?st \<longrightarrow> h2 ! f = (h @ ?M) ! f"
    by auto
  have "take (length h) h2 = h"
  proof (rule nth_equalityI)
    show "length (take (length h) h2) = length h"
      using h2(3) by simp
  next
    fix n assume "n < length (take (length h) h2)"
    then have n: "n < length h" by simp
    then have "n \<notin> set ?st" by simp
    then have "h2 ! n = (h @ ?M) ! n" using h2(4) by blast
    then show "take (length h) h2 ! n = h ! n"
      using n by (simp add: nth_append)
  qed
  then have p: "prefix h h2"
    by (metis take_is_prefix)
  have "\<forall>f \<in> set ?st. f < length h2"
    using h2(3) by simp
  then show ?thesis
    using c h2(1,2) p d by blast
qed

lemma card_Diff_insert_new:
  assumes "finite U" "x \<in> U" "x \<notin> V"
  shows "Suc (card (U - insert x V)) = card (U - V)"
proof -
  have "U - insert x V = (U - V) - {x}" by auto
  moreover have "x \<in> U - V" using assms by simp
  moreover have "finite (U - V)" using assms(1) by simp
  ultimately show ?thesis
    by (metis card_Suc_Diff1)
qed

lemma expand_inv:
  fixes step :: "'a StackStep_scheme"
  assumes ao: "addStep_ok addStep" and io: "init_ok init" and fin: "finite A"
  shows "goodStep C N A M0 h step \<Longrightarrow> \<forall>s \<in> set q. goodStep C N A M0 h s \<Longrightarrow>
     \<forall>(i, j) \<in> set ijs. 0 \<le> i \<and> i < int N \<and> 0 \<le> j \<and> j < int N \<Longrightarrow>
     \<exists>sc h'. expand C md5 filt addStep init step ijs visited q fs h = (Inr sc, h')
        \<and> prefix h h'
        \<and> scanPost md5 C N A M0
             (card (fingerprints md5 C N A - visited) + length q) h' sc"
proof (induction ijs arbitrary: visited q fs h)
  case Nil
  then show ?case by (simp add: scanPost_def)
next
  case (Cons ij ijs)
  let ?U = "fingerprints md5 C N A"
  let ?M = "layersMatrix h (puzzle step)"
  obtain i j where ij: "ij = (i, j)" by (cases ij)
  from Cons.prems(3) have rng: "0 \<le> i" "i < int N" "0 \<le> j" "j < int N"
    and rest: "\<forall>(i, j) \<in> set ijs. 0 \<le> i \<and> i < int N \<and> 0 \<le> j \<and> j < int N"
    by (auto simp: ij)
  have N: "length (puzzle step) = N"
    using Cons.prems(1) by (simp add: goodStep_def inU_def)
  define a b where "a = nat i" and "b = nat j"
  have ab: "i = int a" "j = int b" "a < length (puzzle step)" "b < length (puzzle step)"
    using rng N by (simp_all add: a_def b_def)
  have val: "Puzzle_isTransfusionValid C h (puzzle step) i j = Inr (validM C ?M a b)"
    unfolding ab(1,2) using ab(3,4) by (rule Puzzle_isTransfusionValid_validM)
  show ?case
  proof (cases "validM C ?M a b")
    case False
    then have "expand C md5 filt addStep init step (ij # ijs) visited q fs h
        = expand C md5 filt addStep init step ijs visited q fs h"
      by (simp add: ij val)
    then show ?thesis
      using Cons.IH [OF Cons.prems(1,2) rest] by simp
  next
    case True
    from copy_then_transfuse [OF Cons.prems(1) True]
    obtain st h1 h2 where c: "Puzzle_copy C (puzzle step) h = (Inr st, h1)"
      and t: "Puzzle_transfuse C st i j h1 = (Inr (), h2)"
      and p: "prefix h h2" and d: "distinct st" and r: "\<forall>f \<in> set st. f < length h2"
      and m: "layersMatrix h2 st = transfuseM C ?M a b"
      unfolding ab(1,2) by blast
    let ?M' = "transfuseM C ?M a b"
    let ?fp = "md5 (toStringWithSort h2 st)"
    have inU': "inU C N A ?M'"
      using Cons.prems(1) True by (intro inU_transfuseM) (simp_all add: goodStep_def)
    have fpU: "?fp \<in> ?U"
      using inU' by (simp add: fingerprints_def toStringWithSort_canonM m)
    have g2: "goodStep C N A M0 h2 step"
      using Cons.prems(1) p by (rule goodStep_prefix)
    have q2: "\<forall>s \<in> set q. goodStep C N A M0 h2 s"
      using Cons.prems(2) p by (blast intro: goodStep_prefix)
    show ?thesis
    proof (cases "?fp \<in> visited")
      case True
      then have e: "expand C md5 filt addStep init step (ij # ijs) visited q fs h
          = expand C md5 filt addStep init step ijs visited q fs h2"
        using \<open>validM C ?M a b\<close> by (simp add: ij val c t)
      from Cons.IH [OF g2 q2 rest, of visited fs]
      obtain sc h' where "expand C md5 filt addStep init step ijs visited q fs h2 = (Inr sc, h')"
        "prefix h2 h'"
        "scanPost md5 C N A M0 (card (?U - visited) + length q) h' sc"
        by blast
      then show ?thesis
        using e p by (metis prefix_order.trans)
    next
      case False
      let ?next = "init h2 step st (i, j)"
      have nx: "puzzle ?next = st" "transfusions ?next = transfusions step @ [(i, j)]"
        using io by (simp_all add: init_ok_def)
      have rp: "replayM C M0 (transfusions ?next) = Some ?M'"
        using Cons.prems(1) \<open>validM C ?M a b\<close> rng
        by (simp add: nx replayM_append goodStep_def a_def b_def)
      show ?thesis
      proof (cases "isSolved C h2 st")
        case True
        then have e: "expand C md5 filt addStep init step (ij # ijs) visited q fs h
            = (Inr (Found (transfusions ?next)), h2)"
          using \<open>validM C ?M a b\<close> False by (simp add: ij val c t Let_def nx)
        have "solvedM C ?M'"
          using True by (simp add: isSolved_solvedM m)
        then show ?thesis
          using e p rp by (auto simp: scanPost_def)
      next
        case ns: False
        obtain ok fs1 where f: "filt fs ?next = (ok, fs1)"
          by (cases "filt fs ?next")
        let ?q1 = "if ok then addStep ?next q else q"
        let ?v1 = "insert ?fp visited"
        have e: "expand C md5 filt addStep init step (ij # ijs) visited q fs h
            = expand C md5 filt addStep init step ijs ?v1 ?q1 fs1 h2"
          using \<open>validM C ?M a b\<close> False ns
          by (cases ok) (simp_all add: ij val c t Let_def nx f)
        have gn: "goodStep C N A M0 h2 ?next"
          using d r inU' rp by (simp add: goodStep_def nx m)
        have q1: "\<forall>s \<in> set ?q1. goodStep C N A M0 h2 s"
          using q2 gn ao by (auto simp: addStep_ok_def)
        have l1: "length ?q1 \<le> Suc (length q)"
          using ao by (simp add: addStep_ok_def)
        have cd: "Suc (card (?U - ?v1)) = card (?U - visited)"
          using finite_fingerprints [OF fin] fpU False by (rule card_Diff_insert_new)
        from Cons.IH [OF g2 q1 rest, of ?v1 fs1]
        obtain sc h' where r1: "expand C md5 filt addStep init step ijs ?v1 ?q1 fs1 h2 = (Inr sc, h')"
          "prefix h2 h'"
          and sp: "scanPost md5 C N A M0 (card (?U - ?v1) + length ?q1) h' sc"
          by blast
        have "scanPost md5 C N A M0 (card (?U - visited) + length q) h' sc"
          using sp l1 cd by (cases sc) (auto simp: scanPost_def)
        then show ?thesis
          using e r1 p by (metis prefix_order.trans)
      qed
    qed
  qed
qed

lemma pairs_range: "\<forall>(i, j) \<in> set (pairs N). 0 \<le> i \<and> i < int N \<and> 0 \<le> j \<and> j < int N"
  by (auto simp: pairs_def)

lemma searchLoop_total:
  fixes q :: "'a StackStep_scheme list"
  assumes go: "getStep_ok getStep" and ao: "addStep_ok addStep" and io: "init_ok init"
    and fin: "finite A"
  shows "\<forall>s \<in> set q. goodStep C N A M0 h s \<Longrightarrow>
     \<exists>res h'. searchLoop C md5 filt getStep addStep init visited q fs h = Some (Inr res, h')
        \<and> prefix h h'
        \<and> (\<forall>ts. res = Some ts \<longrightarrow> (\<exists>M'. replayM C M0 ts = Some M' \<and> solvedM C M'))"
proof (induction "card (fingerprints md5 C N A - visited) + length q"
    arbitrary: visited q fs h rule: less_induct)
  case less
  let ?U = "fingerprints md5 C N A"
  show ?case
  proof (cases "q = []")
    case True
    then show ?thesis
      by (subst searchLoop.simps) simp
  next
    case False
    obtain step q1 where gs: "getStep q = (step, q1)" by (cases "getStep q")
    have sq: "step \<in> set q" "set q1 \<subseteq> set q" "length q1 < length q"
      using go False gs by (auto simp: getStep_ok_def dest!: spec [of _ q])
    have gstep: "goodStep C N A M0 h step" and gq1: "\<forall>s \<in> set q1. goodStep C N A M0 h s"
      using less.prems sq by auto
    obtain ok fs1 where f: "filt fs step = (ok, fs1)" by (cases "filt fs step")
    show ?thesis
    proof (cases ok)
      case False
      have e: "searchLoop C md5 filt getStep addStep init visited q fs h
          = searchLoop C md5 filt getStep addStep init visited q1 fs1 h"
        using \<open>q \<noteq> []\<close> False by (subst searchLoop.simps) (simp add: gs f)
      have "card (?U - visited) + length q1 < card (?U - visited) + length q"
        using sq by simp
      from less.hyps [OF this gq1, of fs1] e show ?thesis by simp
    next
      case True
      have N: "length (puzzle step) = N"
        using gstep by (simp add: goodStep_def inU_def)
      from expand_inv [OF ao io fin gstep gq1 pairs_range, of md5 filt visited fs1]
      obtain sc h1 where ex: "expand C md5 filt addStep init step (pairs N) visited q1 fs1 h
            = (Inr sc, h1)"
        and p1: "prefix h h1"
        and sp: "scanPost md5 C N A M0 (card (?U - visited) + length q1) h1 sc"
        by blast
      show ?thesis
      proof (cases sc)
        case (Found ts)
        have "searchLoop C md5 filt getStep addStep init visited q fs h = Some (Inr (Some ts), h1)"
          using \<open>q \<noteq> []\<close> True by (subst searchLoop.simps) (simp add: gs f N ex Found)
        then show ?thesis
          using p1 sp Found by (simp add: scanPost_def)
      next
        case (Frontier v2 q2 fs2)
        have e: "searchLoop C md5 filt getStep addStep init visited q fs h
            = searchLoop C md5 filt getStep addStep init v2 q2 fs2 h1"
          using \<open>q \<noteq> []\<close> True by (subst searchLoop.simps) (simp add: gs f N ex Frontier)
        have g2: "\<forall>s \<in> set q2. goodStep C N A M0 h1 s"
          and "card (?U - v2) + length q2 \<le> card (?U - visited) + length q1"
          using sp Frontier by (simp_all add: scanPost_def)
        then have "card (?U - v2) + length q2 < card (?U - visited) + length q"
          using sq by simp
        from less.hyps [OF this g2, of fs2]
        obtain res h' where "searchLoop C md5 filt getStep addStep init v2 q2 fs2 h1
              = Some (Inr res, h')" "prefix h1 h'"
            "\<forall>ts. res = Some ts \<longrightarrow> (\<exists>M'. replayM C M0 ts = Some M' \<and> solvedM C M')"
          by blast
        then show ?thesis
          using e p1 by (metis prefix_order.trans)
      qed
    qed
  qed
qed

lemma getStep_ok_pop: "getStep_ok pop"
  by (auto simp: getStep_ok_def pop_def dest: in_set_butlastD)

lemma addStep_ok_push: "addStep_ok push"
  by (simp add: addStep_ok_def push_def)

lemma PriorityQueue_ok_steps:
  assumes "PriorityQueue_ok pq"
  shows "getStep_ok (dequeue pq cmp)" "addStep_ok (queue pq cmp)"
    "set (create pq cmp xs) \<subseteq> set xs"
  using assms by (simp_all add: PriorityQueue_ok_def getStep_ok_def addStep_ok_def)

lemma minStep_mem: "minStep cmp x ys \<in> set (x # ys)"
  by (induction ys arbitrary: x) auto

lemma PriorityQueue_ok_listQueue: "PriorityQueue_ok listQueue"
proof -
  have "minStep cmp (hd q) (tl q) \<in> set q" if "q \<noteq> []" for cmp and q :: "'a list"
    using that minStep_mem [of cmp "hd q" "tl q"] by simp
  then show ?thesis
    by (auto simp: PriorityQueue_ok_def listQueue_def length_remove1
        dest: set_remove1_subset [THEN subsetD])
qed

lemma goodStep_initial:
  fixes s :: "'a StackStep_scheme"
  assumes "Puzzle_ok C h p" "puzzle s = p" "transfusions s = []"
  shows "goodStep C (length p) (\<Union> (set ` set (layersMatrix h p))) (layersMatrix h p) h s"
  using assms by (auto simp: goodStep_def Puzzle_ok_def inU_def layersMatrix_def)

lemma finite_colors: "finite (\<Union> (set ` set (M :: layers list)))"
  by simp

lemma solveUsingStack_total:
  assumes "Puzzle_ok C h p"
  shows "\<exists>res h'. solveUsingStack C md5 p h = Some (Inr res, h') \<and> prefix h h'
           \<and> (\<forall>ts. res = Some ts \<longrightarrow>
                 (\<exists>M'. replayM C (layersMatrix h p) ts = Some M' \<and> solvedM C M'))"
  unfolding solveUsingStack_def solveUsingPriorityQueueOrStack_def
proof (rule searchLoop_total [OF getStep_ok_pop addStep_ok_push _ finite_colors])
  show "init_ok (\<lambda>h step state nextTransfusion.
          \<lparr>puzzle = state, transfusions = transfusions step @ [nextTransfusion]\<rparr>)"
    by (simp add: init_ok_def)
  show "\<forall>s \<in> set [\<lparr>puzzle = p, transfusions = []\<rparr>].
      goodStep C (length p) (\<Union> (set ` set (layersMatrix h p))) (layersMatrix h p) h s"
    by (simp, rule goodStep_initial [OF assms]) simp_all
qed

lemma solveUsingPriorityQueue_total:
  assumes "PriorityQueue_ok pq" "Puzzle_ok C h p"
  shows "\<exists>res h'. solveUsingPriorityQueue C md5 pq p delta h = Some (Inr res, h') \<and> prefix h h'
           \<and> (\<forall>ts. res = Some ts \<longrightarrow>
                 (\<exists>M'. replayM C (layersMatrix h p) ts = Some M' \<and> solvedM C M'))"
  unfolding solveUsingPriorityQueue_def solveUsingPriorityQueueOrStack_def
proof (rule searchLoop_total [OF PriorityQueue_ok_steps(1,2) [OF assms(1)] _ finite_colors])
  show "init_ok (\<lambda>h step state nextTransfusion.
          \<lparr>puzzle = state, transfusions = transfusions step @ [nextTransfusion],
           metric = calculateSolutionMetric h state\<rparr>)"
    by (simp add: init_ok_def)
  let ?s0 = "\<lparr>puzzle = p, transfusions = [], metric = calculateSolutionMetric h p\<rparr>"
  have "goodStep C (length p) (\<Union> (set ` set (layersMatrix h p))) (layersMatrix h p) h ?s0"
    by (rule goodStep_initial [OF assms(2)]) simp_all
  then show "\<forall>s \<in> set (create pq comparator [?s0]).
      goodStep C (length p) (\<Union> (set ` set (layersMatrix h p))) (layersMatrix h p) h s"
    using PriorityQueue_ok_steps(3) [OF assms(1), of comparator "[?s0]"] by auto
qed

section \<open>The driver\<close>

text \<open>One round of the loop of \<open>solve\<close>, its end, and what the loop returns.\<close>

lemma Puzzle_ok_new:
  assumes "\<forall>ls \<in> set M. length ls \<le> C"
  shows "Puzzle_ok C (h @ M) [length h..<length h + length M]"
proof -
  have "length ((h @ M) ! f) \<le> C" if "length h \<le> f" "f < length h + length M" for f
  proof -
    have "(h @ M) ! f = M ! (f - length h)" "f - length h < length M"
      using that by (simp_all add: nth_append)
    then show ?thesis
      using assms by (metis nth_mem)
  qed
  then show ?thesis
    by (auto simp: Puzzle_ok_def)
qed

lemma dispatch_total:
  assumes "PriorityQueue_ok pq" "Puzzle_ok C h p"
  shows "\<exists>res h'.
      (if m = ''shortest'' then solveUsingPriorityQueue C md5 pq p 1 h
       else if m = ''balanced'' then solveUsingPriorityQueue C md5 pq p 0 h
       else solveUsingStack C md5 p h) = Some (Inr res, h')
      \<and> prefix h h'
      \<and> (\<forall>ts. res = Some ts \<longrightarrow>
            (\<exists>M'. replayM C (layersMatrix h p) ts = Some M' \<and> solvedM C M'))"
  using solveUsingPriorityQueue_total [OF assms, of md5 1]
    solveUsingPriorityQueue_total [OF assms, of md5 0]
    solveUsingStack_total [OF assms(2), of md5]
  by simp

lemma solveFrom_end:
  "\<not> i \<le> mx \<Longrightarrow> solveFrom C mx md5 pq matrix m i h = Some (Inr (None, i), h)"
  by (subst solveFrom.simps) simp

lemma solveFrom_overlimit:
  assumes "i \<le> mx" "\<not> (\<forall>ls \<in> set matrix. length ls \<le> C)"
  shows "\<exists>h'. solveFrom C mx md5 pq matrix m i h = Some (Inl FlaskOverLimit, h')"
proof -
  have "\<not> (\<forall>ls \<in> set (matrix @ replicate i []). length ls \<le> C)"
    using assms(2) by auto
  from Puzzle_new_overlimit [OF this, of h]
  obtain h' where "Puzzle_new C (matrix @ replicate i []) h = (Inl FlaskOverLimit, h')" ..
  then show ?thesis
    using assms(1) by (subst solveFrom.simps) simp
qed

lemma solveFrom_step:
  assumes pq: "PriorityQueue_ok pq" and rows: "\<forall>ls \<in> set matrix. length ls \<le> C"
    and le: "i \<le> mx"
  shows "\<exists>res h2.
      (\<forall>ts. res = Some ts \<longrightarrow>
         (\<exists>M'. replayM C (matrix @ replicate i []) ts = Some M' \<and> solvedM C M'))
      \<and> solveFrom C mx md5 pq matrix m i h =
          (case res of
             Some ts \<Rightarrow> Some (Inr (Some ts, i), h2)
           | None \<Rightarrow> solveFrom C mx md5 pq matrix m (i + 1) h2)"
proof -
  let ?M = "matrix @ replicate i []"
  let ?p = "[length h..<length h + length ?M]"
  have r: "\<forall>ls \<in> set ?M. length ls \<le> C"
    using rows by auto
  have n: "Puzzle_new C ?M h = (Inr ?p, h @ ?M)"
    using r by (rule Puzzle_new_ok)
  have ok: "Puzzle_ok C (h @ ?M) ?p"
    using r by (rule Puzzle_ok_new)
  have lm: "layersMatrix (h @ ?M) ?p = ?M"
    by (rule layersMatrix_fresh)
  from dispatch_total [OF pq ok, of m md5]
  obtain res h2 where d:
      "(if m = ''shortest'' then solveUsingPriorityQueue C md5 pq ?p 1 (h @ ?M)
        else if m = ''balanced'' then solveUsingPriorityQueue C md5 pq ?p 0 (h @ ?M)
        else solveUsingStack C md5 ?p (h @ ?M)) = Some (Inr res, h2)"
    and s: "\<forall>ts. res = Some ts \<longrightarrow>
            (\<exists>M'. replayM C (layersMatrix (h @ ?M) ?p) ts = Some M' \<and> solvedM C M')"
    by blast
  have "solveFrom C mx md5 pq matrix m i h =
          (case res of
             Some ts \<Rightarrow> Some (Inr (Some ts, i), h2)
           | None \<Rightarrow> solveFrom C mx md5 pq matrix m (i + 1) h2)"
    by (subst solveFrom.simps) (simp only: le if_True n prod.case sum.case d option.case)
  then show ?thesis
    using s unfolding lm by blast
qed

lemma solveFrom_total:
  assumes pq: "PriorityQueue_ok pq"
  shows "\<exists>r. solveFrom C mx md5 pq matrix m i h = Some r"
proof (induction "Suc mx - i" arbitrary: i h)
  case 0
  then show ?case by (simp add: solveFrom_end)
next
  case (Suc n)
  then have le: "i \<le> mx" and n: "n = Suc mx - (i + 1)" by simp_all
  show ?case
  proof (cases "\<forall>ls \<in> set matrix. length ls \<le> C")
    case False
    then show ?thesis
      using solveFrom_overlimit [OF le, of matrix C md5 pq m h] by blast
  next
    case True
    from solveFrom_step [OF pq True le, of md5 m h] Suc.hyps(1) [OF n]
    show ?thesis
      by (fastforce split: option.splits)
  qed
qed

lemma solveFrom_sound:
  assumes pq: "PriorityQueue_ok pq"
  shows "solveFrom C mx md5 pq matrix m i h = Some (Inr (Some ts, e), h') \<Longrightarrow>
     i \<le> e \<and> e \<le> mx \<and> (\<forall>ls \<in> set matrix. length ls \<le> C)
     \<and> (\<exists>M'. replayM C (matrix @ replicate e []) ts = Some M' \<and> solvedM C M')"
proof (induction "Suc mx - i" arbitrary: i h)
  case 0
  then show ?case by (simp add: solveFrom_end)
next
  case (Suc n)
  then have le: "i \<le> mx" and n: "n = Suc mx - (i + 1)" by simp_all
  show ?case
  proof (cases "\<forall>ls \<in> set matrix. length ls \<le> C")
    case False
    then show ?thesis
      using solveFrom_overlimit [OF le, of matrix C md5 pq m h] Suc.prems by auto
  next
    case True
    from solveFrom_step [OF pq True le, of md5 m h]
    obtain res h2 where s: "\<forall>ts. res = Some ts \<longrightarrow>
         (\<exists>M'. replayM C (matrix @ replicate i []) ts = Some M' \<and> solvedM C M')"
      and e: "solveFrom C mx md5 pq matrix m i h =
          (case res of
             Some ts \<Rightarrow> Some (Inr (Some ts, i), h2)
           | None \<Rightarrow> solveFrom C mx md5 pq matrix m (i + 1) h2)"
      by blast
    show ?thesis
    proof (cases res)
      case None
      then have "solveFrom C mx md5 pq matrix m (i + 1) h2 = Some (Inr (Some ts, e), h')"
        using e Suc.prems by simp
      from Suc.hyps(1) [OF n this] show ?thesis by simp
    next
      case (Some ts')
      then have "ts' = ts" "i = e"
        using e Suc.prems by simp_all
      then show ?thesis
        using s Some le True by simp
    qed
  qed
qed

lemma solveFrom_nosol:
  assumes pq: "PriorityQueue_ok pq" and rows: "\<forall>ls \<in> set matrix. length ls \<le> C"
  shows "\<forall>e ts M'. i \<le> e \<and> e \<le> mx \<and> replayM C (matrix @ replicate e []) ts = Some M'
            \<longrightarrow> \<not> solvedM C M' \<Longrightarrow>
     \<exists>h'. solveFrom C mx md5 pq matrix m i h = Some (Inr (None, max i (Suc mx)), h')"
proof (induction "Suc mx - i" arbitrary: i h)
  case 0
  then have "max i (Suc mx) = i" by simp
  then show ?case using 0 by (simp add: solveFrom_end)
next
  case (Suc n)
  then have le: "i \<le> mx" and n: "n = Suc mx - (i + 1)" by simp_all
  from solveFrom_step [OF pq rows le, of md5 m h]
  obtain res h2 where s: "\<forall>ts. res = Some ts \<longrightarrow>
       (\<exists>M'. replayM C (matrix @ replicate i []) ts = Some M' \<and> solvedM C M')"
    and e: "solveFrom C mx md5 pq matrix m i h =
        (case res of
           Some ts \<Rightarrow> Some (Inr (Some ts, i), h2)
         | None \<Rightarrow> solveFrom C mx md5 pq matrix m (i + 1) h2)"
    by blast
  have none: "res = None"
  proof (rule ccontr)
    assume "res \<noteq> None"
    then obtain ts M' where "replayM C (matrix @ replicate i []) ts = Some M'" "solvedM C M'"
      using s by auto
    then show False
      using Suc.prems le by blast
  qed
  have later: "\<forall>e ts M'. i + 1 \<le> e \<and> e \<le> mx
        \<and> replayM C (matrix @ replicate e []) ts = Some M' \<longrightarrow> \<not> solvedM C M'"
  proof (intro allI impI)
    fix e ts M'
    assume "i + 1 \<le> e \<and> e \<le> mx \<and> replayM C (matrix @ replicate e []) ts = Some M'"
    then have "i \<le> e \<and> e \<le> mx \<and> replayM C (matrix @ replicate e []) ts = Some M'"
      by simp
    then show "\<not> solvedM C M'"
      using Suc.prems by blast
  qed
  from Suc.hyps(1) [OF n later, of h2]
  obtain h' where "solveFrom C mx md5 pq matrix m (i + 1) h2
      = Some (Inr (None, max (i + 1) (Suc mx)), h')" ..
  moreover have "max (i + 1) (Suc mx) = max i (Suc mx)"
    using le by simp
  ultimately show ?case
    using e none by simp
qed

section \<open>Conservation of layers\<close>

text \<open>A transfusion moves layers and neither makes nor loses any, so a puzzle whose
  number of layers is not a multiple of the capacity is never solved.\<close>

lemma totalLayers_update:
  "f < length h \<Longrightarrow> totalLayers (h[f := ls]) + length (h ! f) = totalLayers h + length ls"
  unfolding totalLayers_def
proof (induction h arbitrary: f)
  case Nil
  then show ?case by simp
next
  case (Cons x h)
  then show ?case by (cases f) auto
qed

lemma Flask_transfuse_totalLayers:
  assumes "s < length h" "d < length h" "Flask_transfuse C s d h = (r, h')"
  shows "totalLayers h' = totalLayers h"
proof (cases "Flask_isTransfusionValid C h s d")
  case False
  with assms show ?thesis by (simp add: Flask_transfuse_def)
next
  case True
  show ?thesis
  proof (cases "s = d")
    case True
    with assms show ?thesis
      by (auto simp: Flask_transfuse_self split: if_splits)
  next
    case False
    define k where "k = min (topRun (h ! s)) (C - length (h ! d))"
    define h1 where "h1 = h[s := take (length (h ! s) - k) (h ! s)]"
    have h': "h' = h1[d := h ! d @ replicate k (last (h ! s))]"
      using assms True False by (simp add: Flask_transfuse_distinct k_def h1_def)
    have k: "k \<le> length (h ! s)"
      using topRun_le [of "h ! s"] by (simp add: k_def)
    have a: "totalLayers h1 + length (h ! s) = totalLayers h + (length (h ! s) - k)"
      unfolding h1_def
      using totalLayers_update [OF assms(1), of "take (length (h ! s) - k) (h ! s)"] by simp
    have d1: "h1 ! d = h ! d" "d < length h1"
      using False assms(2) by (simp_all add: h1_def)
    have b: "totalLayers h' + length (h ! d) = totalLayers h1 + (length (h ! d) + k)"
      unfolding h' using totalLayers_update [OF d1(2), of "h ! d @ replicate k (last (h ! s))"]
      by (simp add: d1(1))
    show ?thesis
      using a b k by linarith
  qed
qed

lemma Puzzle_transfuse_totalLayers:
  assumes "\<forall>f \<in> set p. f < length h" "Puzzle_transfuse C p i j h = (r, h')"
  shows "totalLayers h' = totalLayers h \<and> length h' = length h"
proof (cases "outOfBounds p i j")
  case True
  then show ?thesis using assms(2) by (simp add: Puzzle_transfuse_def)
next
  case False
  then have "p ! nat i < length h" "p ! nat j < length h"
    using assms(1) by (auto simp: outOfBounds_def)
  moreover have "Flask_transfuse C (p ! nat i) (p ! nat j) h = (r, h')"
    using assms(2) False by (simp add: Puzzle_transfuse_def)
  ultimately show ?thesis
    using Flask_transfuse_totalLayers Flask_transfuse_frame by blast
qed

lemma replay_totalLayers:
  "\<forall>f \<in> set p. f < length h \<Longrightarrow> replay C p ts h = (r, h') \<Longrightarrow>
   totalLayers h' = totalLayers h \<and> length h' = length h"
proof (induction ts arbitrary: h)
  case Nil
  then show ?case by simp
next
  case (Cons t ts)
  obtain i j where t: "t = (i, j)" by (cases t)
  obtain r1 h1 where p: "Puzzle_transfuse C p i j h = (r1, h1)"
    by (cases "Puzzle_transfuse C p i j h")
  have h1: "totalLayers h1 = totalLayers h \<and> length h1 = length h"
    using Cons.prems(1) p by (rule Puzzle_transfuse_totalLayers)
  show ?case
  proof (cases r1)
    case (Inl e)
    then show ?thesis using Cons.prems(2) p h1 by (simp add: t)
  next
    case (Inr u)
    then have "replay C p ts h1 = (r, h')"
      using Cons.prems(2) p by (simp add: t)
    moreover have "\<forall>f \<in> set p. f < length h1"
      using Cons.prems(1) h1 by simp
    ultimately have "totalLayers h' = totalLayers h1 \<and> length h' = length h1"
      by (rule Cons.IH [rotated])
    then show ?thesis using h1 by simp
  qed
qed

lemma isSolved_dvd_totalLayers:
  assumes "isSolved C h [0..<length h]"
  shows "C dvd totalLayers h"
proof -
  have "\<forall>ls \<in> set h. C dvd length ls"
  proof
    fix ls assume "ls \<in> set h"
    then obtain f where f: "f < length h" "h ! f = ls"
      by (auto simp: in_set_conv_nth)
    then have "isInFinalState C h f"
      using assms by (simp add: isSolved_def list_ex_iff)
    then show "C dvd length ls"
      using f(2) by (auto simp: isInFinalState_def isEmpty_def isFull_def)
  qed
  then show ?thesis
    unfolding totalLayers_def by (induction h) auto
qed

lemma single_layer_unsolvable:
  assumes "Puzzle_new 4 ([[0]] @ replicate e []) [] = (Inr p, g1)"
    and "replay 4 p ts g1 = (Inr (), g2)"
  shows "\<not> isSolved 4 g2 p"
proof
  assume s: "isSolved 4 g2 p"
  define M :: "layers list" where "M = [[0]] @ replicate e []"
  have "\<forall>ls \<in> set M. length ls \<le> 4" by (simp add: M_def)
  from Puzzle_new_ok [OF this, of "[]"]
  have "Puzzle_new 4 M [] = (Inr [0..<length M], M)" by simp
  moreover have "Puzzle_new 4 M [] = (Inr p, g1)"
    using assms(1) by (simp only: M_def)
  ultimately have pg: "p = [0..<length M]" "g1 = M" by simp_all
  have r: "\<forall>f \<in> set p. f < length g1"
    using pg by simp
  have "totalLayers g2 = totalLayers g1 \<and> length g2 = length g1"
    using r assms(2) by (rule replay_totalLayers)
  moreover have "totalLayers g1 = 1"
    using pg by (simp add: totalLayers_def M_def)
  ultimately have "totalLayers g2 = 1" "p = [0..<length g2]"
    using pg by simp_all
  then have "(4::nat) dvd 1"
    using isSolved_dvd_totalLayers [of 4 g2] s by simp
  then show False by simp
qed

section \<open>Claims about flasks and puzzles\<close>

text \<open>
  Claim C3. The claim reads: for every puzzle and every index \<open>i\<close> in range,
  \<open>Puzzle.transfuse(i, i)\<close> returns without an error and changes nothing, whether the
  flask is empty, partly filled or full. \<open>Puzzle.transfuse\<close> has no test for equal
  indices: it hands the same flask twice to \<open>Flask.transfuse\<close>, whose validity check
  fails on an empty source and on a full destination. With \<open>FlaskCapacity = 4\<close>, on
  the puzzle built from \<open>[[], [7, 7, 7, 7], [7, 7]]\<close>, both \<open>transfuse(0, 0)\<close> and
  \<open>transfuse(1, 1)\<close> throw the invalid-transfusion error; only \<open>transfuse(2, 2)\<close>, on
  the partly filled flask, returns and changes nothing.
\<close>

theorem self_transfusion_throws_on_empty_or_full:
  "Puzzle_new 4 [[], [7, 7, 7, 7], [7, 7]] [] = (Inr [0, 1, 2], [[], [7, 7, 7, 7], [7, 7]])
   \<and> Puzzle_transfuse 4 [0, 1, 2] 0 0 [[], [7, 7, 7, 7], [7, 7]]
       = (Inl InvalidTransfusion, [[], [7, 7, 7, 7], [7, 7]])
   \<and> Puzzle_transfuse 4 [0, 1, 2] 1 1 [[], [7, 7, 7, 7], [7, 7]]
       = (Inl InvalidTransfusion, [[], [7, 7, 7, 7], [7, 7]])
   \<and> Puzzle_transfuse 4 [0, 1, 2] 2 2 [[], [7, 7, 7, 7], [7, 7]]
       = (Inr (), [[], [7, 7, 7, 7], [7, 7]])"
proof -
  have "Puzzle_transfuse 4 [0, 1, 2] 2 2 [[], [7, 7, 7, 7], [7, 7]]
       = (Inr (), [[], [7, 7, 7, 7], [7, 7]])"
    using Flask_transfuse_self [of 2 "[[], [7, 7, 7, 7], [7, 7]]" 4]
    by (simp add: Puzzle_transfuse_def outOfBounds_def)
  then show ?thesis
    by (simp add: Flask_new_def Puzzle_transfuse_def outOfBounds_def Flask_transfuse_def
        Flask_isTransfusionValid_def isEmpty_def isFull_def)
qed

text \<open>
  Claim C4. For two different flasks and a valid transfusion, \<open>Flask.transfuse\<close> moves
  exactly \<open>k = min r f\<close> layers from the top of the source to the top of the
  destination: the source keeps its first \<open>length - k\<close> layers and the destination gains
  \<open>k\<close> layers of the source's top colour. Here \<open>f\<close> is the free capacity of the
  destination and \<open>r\<close> the length of the run at the top of the source: the top \<open>r\<close>
  layers all equal the top layer, and the layer below them, if any, differs. With
  capacity 4 and \<open>A \<noteq> B\<close>, source \<open>[A, B, B]\<close> and destination \<open>[B]\<close> become \<open>[A]\<close> and
  \<open>[B, B, B]\<close>.
\<close>

theorem transfuse_moves_min_of_run_and_free:
  "(s < length h \<and> d < length h \<and> s \<noteq> d \<and> Flask_isTransfusionValid C h s d \<longrightarrow>
      (let src = h ! s; dst = h ! d;
           r = topRun src; f = C - length dst; k = min r f
       in r \<le> length src
          \<and> drop (length src - r) src = replicate r (last src)
          \<and> (r < length src \<longrightarrow> src ! (length src - r - 1) \<noteq> last src)
          \<and> Flask_transfuse C s d h =
              (Inr (), h[s := take (length src - k) src, d := dst @ replicate k (last src)])))
   \<and> (A \<noteq> B \<longrightarrow> Flask_transfuse 4 0 1 [[A, B, B], [B]] = (Inr (), [[A], [B, B, B]]))"
proof (intro conjI impI)
  assume a: "s < length h \<and> d < length h \<and> s \<noteq> d \<and> Flask_isTransfusionValid C h s d"
  have "Flask_transfuse C s d h =
      (Inr (), h[s := take (length (h ! s) - min (topRun (h ! s)) (C - length (h ! d))) (h ! s),
                 d := h ! d @ replicate (min (topRun (h ! s)) (C - length (h ! d))) (last (h ! s))])"
    using a by (intro Flask_transfuse_distinct) simp_all
  then show "let src = h ! s; dst = h ! d;
           r = topRun src; f = C - length dst; k = min r f
       in r \<le> length src
          \<and> drop (length src - r) src = replicate r (last src)
          \<and> (r < length src \<longrightarrow> src ! (length src - r - 1) \<noteq> last src)
          \<and> Flask_transfuse C s d h =
              (Inr (), h[s := take (length src - k) src, d := dst @ replicate k (last src)])"
    unfolding Let_def
    using topRun_le [of "h ! s"] topRun_drop [of "h ! s"] topRun_stop [of "h ! s"]
    by simp
next
  assume "A \<noteq> B"
  then have v: "Flask_isTransfusionValid 4 [[A, B, B], [B]] 0 1"
    by (simp add: Flask_isTransfusionValid_def isEmpty_def isFull_def)
  have t: "topRun [A, B, B] = 2"
    using \<open>A \<noteq> B\<close> by (simp add: topRun_def)
  show "Flask_transfuse 4 0 1 [[A, B, B], [B]] = (Inr (), [[A], [B, B, B]])"
    using Flask_transfuse_distinct [of 0 "[[A, B, B], [B]]" 1 4, OF _ _ _ v]
    by (simp add: t numeral_2_eq_2)
qed

text \<open>The example of the claim at \<open>A = 1\<close>, \<open>B = 2\<close>.\<close>

theorem transfuse_moves_min_of_run_and_free_witness:
  "(0::nat) < length [[1, 2, 2], [2::int]] \<and> (1::nat) < length [[1, 2, 2], [2::int]]
   \<and> (0::nat) \<noteq> 1 \<and> Flask_isTransfusionValid 4 [[1, 2, 2], [2]] 0 1
   \<and> topRun [1, 2, 2] = 2
   \<and> Flask_transfuse 4 0 1 [[1, 2, 2], [2]] = (Inr (), [[1], [2, 2, 2]])"
  using transfuse_moves_min_of_run_and_free [of 0 "[[1, 2, 2], [2]]" 1 4 1 2]
  by (simp add: Flask_isTransfusionValid_def isEmpty_def isFull_def topRun_def)

text \<open>
  Claim C5. \<open>Puzzle.isTransfusionValid(i, j)\<close> throws the out-of-range error exactly when
  \<open>i\<close> or \<open>j\<close> is outside \<open>[0, N)\<close>, and throws nothing else. With both in range it
  returns \<open>false\<close> when \<open>i = j\<close>; otherwise it returns \<open>true\<close> exactly when the source is
  not empty, the destination is not full, and the destination is empty or has the
  source's top colour on top.
\<close>

theorem isTransfusionValid_cases:
  "(Puzzle_isTransfusionValid C h p i j = Inl IndexOutOfBounds
      \<longleftrightarrow> \<not> (0 \<le> i \<and> i < int (length p) \<and> 0 \<le> j \<and> j < int (length p)))
   \<and> (\<forall>e. Puzzle_isTransfusionValid C h p i j = Inl e \<longrightarrow> e = IndexOutOfBounds)
   \<and> (0 \<le> i \<and> i < int (length p) \<and> 0 \<le> j \<and> j < int (length p) \<longrightarrow>
        (i = j \<longrightarrow> Puzzle_isTransfusionValid C h p i j = Inr False)
      \<and> (i \<noteq> j \<longrightarrow> Puzzle_isTransfusionValid C h p i j =
            Inr (h ! (p ! nat i) \<noteq> []
                 \<and> length (h ! (p ! nat j)) \<noteq> C
                 \<and> (h ! (p ! nat j) = [] \<or> last (h ! (p ! nat j)) = last (h ! (p ! nat i))))))"
  by (auto simp: Puzzle_isTransfusionValid_def outOfBounds_def Flask_isTransfusionValid_def
      isEmpty_def isFull_def)

text \<open>The cases of the claim on a puzzle of three flasks.\<close>

theorem isTransfusionValid_cases_witness:
  "Puzzle_isTransfusionValid 4 [[0, 1], [0, 1], [1, 0]] [0, 1, 2] 0 3 = Inl IndexOutOfBounds
   \<and> Puzzle_isTransfusionValid 4 [[0, 1], [0, 1], [1, 0]] [0, 1, 2] (- 1) 0 = Inl IndexOutOfBounds
   \<and> Puzzle_isTransfusionValid 4 [[0, 1], [0, 1], [1, 0]] [0, 1, 2] 1 1 = Inr False
   \<and> Puzzle_isTransfusionValid 4 [[0, 1], [0, 1], [1, 0]] [0, 1, 2] 0 1 = Inr True
   \<and> Puzzle_isTransfusionValid 4 [[0, 1], [0, 1], [1, 0]] [0, 1, 2] 0 2 = Inr False"
  using isTransfusionValid_cases [of 4 "[[0, 1], [0, 1], [1, 0]]" "[0, 1, 2]" 0 3]
    isTransfusionValid_cases [of 4 "[[0, 1], [0, 1], [1, 0]]" "[0, 1, 2]" "- 1" 0]
    isTransfusionValid_cases [of 4 "[[0, 1], [0, 1], [1, 0]]" "[0, 1, 2]" 1 1]
    isTransfusionValid_cases [of 4 "[[0, 1], [0, 1], [1, 0]]" "[0, 1, 2]" 0 1]
    isTransfusionValid_cases [of 4 "[[0, 1], [0, 1], [1, 0]]" "[0, 1, 2]" 0 2]
  by simp

text \<open>
  Claim C6. The capacity bound. The constructor throws on more than \<open>C\<close> layers and
  allocates nothing; on at most \<open>C\<close> layers it stores exactly the layers given, with
  no truncation. A call of \<open>Flask.transfuse\<close>, on any two flasks of a store in which every
  flask holds at most \<open>C\<close> layers, ends with a store of the same flasks in which every
  flask holds at most \<open>C\<close> layers, whether it returns or throws.
\<close>

theorem flask_capacity_invariant:
  "(length ls > C \<longrightarrow> Flask_new C ls h = (Inl FlaskOverLimit, h))
   \<and> (length ls \<le> C \<longrightarrow> Flask_new C ls h = (Inr (length h), h @ [ls]))
   \<and> (s < length h \<and> d < length h \<and> (\<forall>f < length h. length (h ! f) \<le> C)
        \<and> Flask_transfuse C s d h = (r, h')
      \<longrightarrow> length h' = length h \<and> (\<forall>f < length h'. length (h' ! f) \<le> C))"
proof (intro conjI impI)
  assume a: "s < length h \<and> d < length h \<and> (\<forall>f < length h. length (h ! f) \<le> C)
        \<and> Flask_transfuse C s d h = (r, h')"
  then have fr: "length h' = length h" "\<forall>f. f \<noteq> s \<and> f \<noteq> d \<longrightarrow> h' ! f = h ! f"
    using Flask_transfuse_frame [of s h d C r h'] by simp_all
  have cap: "length (h' ! s) \<le> C" "length (h' ! d) \<le> C"
    using a Flask_transfuse_capacity [of s h d C r h'] by simp_all
  show "length h' = length h" by (rule fr)
  show "\<forall>f < length h'. length (h' ! f) \<le> C"
  proof (intro allI impI)
    fix f assume "f < length h'"
    then show "length (h' ! f) \<le> C"
      using a fr cap by (cases "f = s \<or> f = d") auto
  qed
qed (simp_all add: Flask_new_def)

text \<open>The constructor on five layers and on two, and a transfusion limited by the free
  capacity of the destination.\<close>

theorem flask_capacity_invariant_witness:
  "Flask_new 4 [0, 0, 0, 0, 0] [] = (Inl FlaskOverLimit, [])
   \<and> Flask_new 4 [0, 1] [[5]] = (Inr 1, [[5], [0, 1]])
   \<and> Flask_transfuse 4 0 1 [[0, 1, 1], [1, 1, 1]] = (Inr (), [[0, 1], [1, 1, 1, 1]])
   \<and> length ([[0, 1], [1, 1, 1, 1::int]] ! 0) \<le> 4
   \<and> length ([[0, 1], [1, 1, 1, 1::int]] ! 1) \<le> 4"
proof -
  have t: "Flask_transfuse 4 0 1 [[0, 1, 1], [1, 1, 1]] = (Inr (), [[0, 1], [1, 1, 1, 1]])"
    by (simp add: Flask_transfuse_def Flask_isTransfusionValid_def isEmpty_def isFull_def
        topRun_def Let_def numeral_2_eq_2 numeral_3_eq_3)
  have b: "\<forall>f < length [[0, 1, 1], [1, 1, 1::int]]. length ([[0, 1, 1], [1, 1, 1::int]] ! f) \<le> 4"
    by (simp add: less_Suc_eq nth_Cons')
  have "\<forall>f < length [[0, 1], [1, 1, 1, 1::int]]. length ([[0, 1], [1, 1, 1, 1::int]] ! f) \<le> 4"
    using flask_capacity_invariant [where C = 4 and h = "[[0, 1, 1], [1, 1, 1]]" and s = 0
        and d = 1 and r = "Inr ()" and h' = "[[0, 1], [1, 1, 1, 1]]"] t b
    by simp
  then have "length ([[0, 1], [1, 1, 1, 1::int]] ! 0) \<le> 4
      \<and> length ([[0, 1], [1, 1, 1, 1::int]] ! 1) \<le> 4"
    by simp
  then show ?thesis
    using flask_capacity_invariant [where ls = "[0, 0, 0, 0, 0]" and C = 4 and h = "[]"]
      flask_capacity_invariant [where ls = "[0, 1]" and C = 4 and h = "[[5]]"] t
    by simp
qed

text \<open>
  Claim C8. The fingerprint does not depend on the order of the flasks: two puzzles
  whose lists of flask contents are permutations of each other have the same sorted
  string form, and so the same digest.
\<close>

theorem fingerprint_order_independent:
  assumes "mset (layersMatrix h' p') = mset (layersMatrix h p)"
  shows "toStringWithSort h' p' = toStringWithSort h p
         \<and> md5 (toStringWithSort h' p') = md5 (toStringWithSort h p)"
proof -
  let ?f = "\<lambda>ls. join '','' (map showInt ls)"
  have "mset (map ?f (layersMatrix h' p')) = mset (map ?f (layersMatrix h p))"
    using assms by (metis mset_map)
  then have "sort (map ?f (layersMatrix h' p')) = sort (map ?f (layersMatrix h p))"
    by (intro properties_for_sort) simp_all
  then show ?thesis
    by (simp add: toStringWithSort_layersMatrix)
qed

text \<open>The two puzzles of the test of \<open>toStringWithSort\<close>.\<close>

theorem fingerprint_order_independent_witness:
  "mset (layersMatrix [[0, 1, 0, 1], [1, 0, 1, 0]] [1, 0])
     = mset (layersMatrix [[0, 1, 0, 1], [1, 0, 1, 0]] [0, 1])
   \<and> toStringWithSort [[0, 1, 0, 1], [1, 0, 1, 0]] [1, 0]
     = toStringWithSort [[0, 1, 0, 1], [1, 0, 1, 0]] [0, 1]"
  using fingerprint_order_independent
    [where h' = "[[0, 1, 0, 1], [1, 0, 1, 0]]" and p' = "[1, 0]"
       and h = "[[0, 1, 0, 1], [1, 0, 1, 0]]" and p = "[0, 1]" and ?md5.0 = "\<lambda>s. s"]
  by (simp add: layersMatrix_def)

text \<open>
  Claim C10. \<open>Flask.transfuse\<close> on a pair of flasks for which \<open>isTransfusionValid\<close> is
  false throws the invalid-transfusion error and leaves the store, hence both flasks,
  as it was before the call.
\<close>

theorem transfuse_atomic_on_error:
  "\<not> Flask_isTransfusionValid C h s d \<Longrightarrow> Flask_transfuse C s d h = (Inl InvalidTransfusion, h)"
  by (simp add: Flask_transfuse_def)

text \<open>The flasks \<open>[0, 1]\<close> and \<open>[1, 0]\<close> of the test: the top colours differ.\<close>

theorem transfuse_atomic_on_error_witness:
  "\<not> Flask_isTransfusionValid 4 [[0, 1], [1, 0]] 0 1
   \<and> Flask_transfuse 4 0 1 [[0, 1], [1, 0]] = (Inl InvalidTransfusion, [[0, 1], [1, 0]])"
proof -
  have n: "\<not> Flask_isTransfusionValid 4 [[0, 1], [1, 0]] 0 1"
    by (simp add: Flask_isTransfusionValid_def isEmpty_def isFull_def)
  show ?thesis
    using n transfuse_atomic_on_error [OF n] by simp
qed

section \<open>Claims about the solver\<close>

text \<open>
  Claim C1. Whenever \<open>solve\<close> returns a list of transfusions with a count \<open>e\<close> of empty
  flasks, building the puzzle from the input matrix followed by \<open>e\<close> empty flasks (in any
  store) and replaying the list on it with \<open>Puzzle.transfuse\<close> throws nothing and ends
  in a puzzle for which \<open>isSolved\<close> holds. The priority queue is required to return on
  \<open>dequeue\<close> a step it holds and to keep only steps it was given.
\<close>

theorem solution_replays_to_solved:
  assumes "PriorityQueue_ok pq"
    and "solve C DefaultEmptyFlasksNumber MaxEmptyFlasksNumber md5 pq matrix solvingMethod h
           = Some (Inr (Some ts, e), h')"
  shows "\<exists>p g1 g2. Puzzle_new C (matrix @ replicate e []) g = (Inr p, g1)
           \<and> replay C p ts g1 = (Inr (), g2) \<and> isSolved C g2 p"
proof -
  let ?M = "matrix @ replicate e []"
  let ?p = "[length g..<length g + length ?M]"
  from solveFrom_sound [OF assms(1) assms(2) [unfolded solve_def]]
  obtain M' where rows: "\<forall>ls \<in> set matrix. length ls \<le> C"
    and r: "replayM C ?M ts = Some M'" and s: "solvedM C M'"
    by blast
  have "\<forall>ls \<in> set ?M. length ls \<le> C"
    using rows by auto
  then have n: "Puzzle_new C ?M g = (Inr ?p, g @ ?M)"
    by (rule Puzzle_new_ok)
  have "replayM C (layersMatrix (g @ ?M) ?p) ts = Some M'"
    using r by (simp only: layersMatrix_fresh)
  from replay_replayM [OF _ _ this]
  obtain g2 where "replay C ?p ts (g @ ?M) = (Inr (), g2)" "layersMatrix g2 ?p = M'"
    by auto
  then show ?thesis
    using n s by (auto simp: isSolved_solvedM)
qed

text \<open>The example of the specification: the matrix \<open>[[A, B, A, B], [B, A, B, A]]\<close> with
  method "fastest", capacity 4 and counts from 0 to 2.\<close>

theorem solution_replays_to_solved_witness:
  "PriorityQueue_ok (listQueue :: PriorityQueueStep PriorityQueue)
   \<and> map_option fst
        (solve 4 0 2 (\<lambda>s. s) listQueue [[0, 1, 0, 1], [1, 0, 1, 0]] ''fastest'' [])
       = Some (Inr (Some [(1, 2), (0, 1), (2, 0), (1, 2), (0, 1), (2, 0),
                     (1, 2), (0, 1), (0, 2)], 1))
   \<and> (\<exists>p g1 g2. Puzzle_new 4 ([[0, 1, 0, 1], [1, 0, 1, 0]] @ replicate 1 []) [] = (Inr p, g1)
         \<and> replay 4 p [(1, 2), (0, 1), (2, 0), (1, 2), (0, 1), (2, 0),
                     (1, 2), (0, 1), (0, 2)] g1
             = (Inr (), g2)
         \<and> isSolved 4 g2 p)"
proof -
  have e: "map_option fst
        (solve 4 0 2 (\<lambda>s. s) listQueue [[0, 1, 0, 1], [1, 0, 1, 0]] ''fastest'' [])
       = Some (Inr (Some [(1, 2), (0, 1), (2, 0), (1, 2), (0, 1), (2, 0),
                     (1, 2), (0, 1), (0, 2)], 1))"
    by code_simp
  then obtain h' where
    "solve 4 0 2 (\<lambda>s. s) listQueue [[0, 1, 0, 1], [1, 0, 1, 0]] ''fastest'' []
       = Some (Inr (Some [(1, 2), (0, 1), (2, 0), (1, 2), (0, 1), (2, 0),
                     (1, 2), (0, 1), (0, 2)], 1), h')"
    by auto
  from solution_replays_to_solved [OF PriorityQueue_ok_listQueue this, of "[]"]
  show ?thesis
    using e PriorityQueue_ok_listQueue by blast
qed

text \<open>
  Claim C2, as stated: \<open>solve\<close> runs the priority search with tolerance 0 for "shortest"
  and with tolerance 1 for "balanced". The code passes 1 for \<open>SolvingMethod.Shortest\<close>
  and 0 for \<open>SolvingMethod.Balanced\<close>. On three full flasks of capacity 4 with counts 0
  and 1, \<open>solve\<close> with "shortest" finds a solution with one empty flask, while the
  driver with the specification's mapping finds none.
\<close>

theorem spec_dispatch_counterexample:
  "map_option fst
     (solve 4 0 1 (\<lambda>s. s) listQueue [[0, 1, 2, 1], [1, 2, 0, 1], [0, 2, 0, 2]] ''shortest'' [])
     = Some (Inr (Some [(0, 3), (1, 3), (2, 0), (1, 2), (0, 1), (3, 0),
                     (1, 3), (0, 1), (2, 0), (2, 3), (0, 2)], 1))
   \<and> map_option fst
       (solveWith specTolerance 4 0 1 (\<lambda>s. s) listQueue
          [[0, 1, 2, 1], [1, 2, 0, 1], [0, 2, 0, 2]] ''shortest'' [])
     = Some (Inr (None, 2))"
proof
  show "map_option fst
     (solve 4 0 1 (\<lambda>s. s) listQueue [[0, 1, 2, 1], [1, 2, 0, 1], [0, 2, 0, 2]] ''shortest'' [])
     = Some (Inr (Some [(0, 3), (1, 3), (2, 0), (1, 2), (0, 1), (3, 0),
                     (1, 3), (0, 1), (2, 0), (2, 3), (0, 2)], 1))"
    by code_simp
  show "map_option fst
       (solveWith specTolerance 4 0 1 (\<lambda>s. s) listQueue
          [[0, 1, 2, 1], [1, 2, 0, 1], [0, 2, 0, 2]] ''shortest'' [])
     = Some (Inr (None, 2))"
    by code_simp
qed

text \<open>
  Claim C2, amended: for every input, \<open>solve\<close> is the driver with the mapping that sends
  "shortest" to the priority search with tolerance 1, "balanced" to the priority search
  with tolerance 0, and "fastest", like every other string, to the stack search.
\<close>

theorem solve_dispatches_by_method:
  "solve C DefaultEmptyFlasksNumber MaxEmptyFlasksNumber md5 pq matrix solvingMethod h
     = solveWith codeTolerance C DefaultEmptyFlasksNumber MaxEmptyFlasksNumber md5 pq matrix
         solvingMethod h
   \<and> codeTolerance ''fastest'' = None
   \<and> codeTolerance ''balanced'' = Some 0
   \<and> codeTolerance ''shortest'' = Some 1"
proof -
  have t: "(case codeTolerance solvingMethod of
              None \<Rightarrow> solveUsingStack C md5 p h1
            | Some delta \<Rightarrow> solveUsingPriorityQueue C md5 pq p delta h1)
         = (if solvingMethod = ''shortest'' then solveUsingPriorityQueue C md5 pq p 1 h1
            else if solvingMethod = ''balanced'' then solveUsingPriorityQueue C md5 pq p 0 h1
            else solveUsingStack C md5 p h1)" for p h1
    by (simp add: codeTolerance_def)
  have loop: "solveFrom C MaxEmptyFlasksNumber md5 pq matrix solvingMethod i g
      = solveWithFrom codeTolerance C MaxEmptyFlasksNumber md5 pq matrix solvingMethod i g"
    for i g
  proof (induction "Suc MaxEmptyFlasksNumber - i" arbitrary: i g)
    case 0
    then show ?case
      by (subst solveFrom.simps, subst solveWithFrom.simps) simp
  next
    case (Suc n)
    then have n: "n = Suc MaxEmptyFlasksNumber - (i + 1)" by simp
    show ?case
      by (subst solveFrom.simps, subst solveWithFrom.simps)
        (simp only: t Suc.hyps(1) [OF n])
  qed
  show ?thesis
    by (simp add: solve_def solveWith_def loop codeTolerance_def)
qed

text \<open>
  Claim C7, as stated: when no count has a solution, \<open>solve\<close> returns the absent solution
  together with the bound value reached. The counter that \<open>solve\<close> returns has passed
  the bound when the loop ends: with counts 0 to 2 and the single flask \<open>[0]\<close> of
  capacity 4, which no transfusion can fill, the result is \<open>[undefined, 3]\<close>.
\<close>

theorem absent_solution_count_counterexample:
  "map_option fst (solve 4 0 2 (\<lambda>s. s) listQueue [[0]] ''fastest'' []) = Some (Inr (None, 3))
   \<and> map_option fst (solve 4 0 2 (\<lambda>s. s) listQueue [[0]] ''fastest'' []) \<noteq> Some (Inr (None, 2))"
proof -
  have "map_option fst (solve 4 0 2 (\<lambda>s. s) listQueue [[0]] ''fastest'' [])
      = Some (Inr (None, 3))"
    by code_simp
  then show ?thesis by (simp only:) simp
qed

text \<open>
  Claim C7, amended. \<open>solve\<close> ends on every input. For a matrix with no row longer
  than the capacity, when at no count from \<open>DefaultEmptyFlasksNumber\<close> to
  \<open>MaxEmptyFlasksNumber\<close> a list of transfusions replayed on the extended puzzle ends in
  a solved puzzle, \<open>solve\<close> returns (it does not throw) the absent solution together
  with the counter value at which the loop stops, which is
  \<open>MaxEmptyFlasksNumber + 1\<close> (or \<open>DefaultEmptyFlasksNumber\<close>, when that is larger);
  and at each such count either search, run on the extended puzzle, ends with its
  frontier exhausted and returns \<open>undefined\<close>.
\<close>

theorem no_solution_reported:
  assumes pq: "PriorityQueue_ok pq"
  shows "(\<exists>r. solve C DefaultEmptyFlasksNumber MaxEmptyFlasksNumber md5 pq matrix solvingMethod h
              = Some r)
       \<and> ((\<forall>ls \<in> set matrix. length ls \<le> C)
          \<and> (\<forall>e ts p g1 g2.
                DefaultEmptyFlasksNumber \<le> e \<and> e \<le> MaxEmptyFlasksNumber
                \<and> Puzzle_new C (matrix @ replicate e []) [] = (Inr p, g1)
                \<and> replay C p ts g1 = (Inr (), g2) \<longrightarrow> \<not> isSolved C g2 p)
          \<longrightarrow> (\<exists>h'. solve C DefaultEmptyFlasksNumber MaxEmptyFlasksNumber md5 pq matrix
                        solvingMethod h
                   = Some (Inr (None, max DefaultEmptyFlasksNumber (Suc MaxEmptyFlasksNumber)),
                           h'))
            \<and> (\<forall>e p h1. DefaultEmptyFlasksNumber \<le> e \<and> e \<le> MaxEmptyFlasksNumber
                  \<and> Puzzle_new C (matrix @ replicate e []) h = (Inr p, h1) \<longrightarrow>
                  (\<exists>h2. solveUsingStack C md5 p h1 = Some (Inr None, h2))
                  \<and> (\<exists>h2. solveUsingPriorityQueue C md5 pq p maxAllowedMetricDelta h1
                             = Some (Inr None, h2))))"
proof (intro conjI impI)
  show "\<exists>r. solve C DefaultEmptyFlasksNumber MaxEmptyFlasksNumber md5 pq matrix solvingMethod h
      = Some r"
    unfolding solve_def using pq by (rule solveFrom_total)
next
  assume a: "(\<forall>ls \<in> set matrix. length ls \<le> C)
          \<and> (\<forall>e ts p g1 g2.
                DefaultEmptyFlasksNumber \<le> e \<and> e \<le> MaxEmptyFlasksNumber
                \<and> Puzzle_new C (matrix @ replicate e []) [] = (Inr p, g1)
                \<and> replay C p ts g1 = (Inr (), g2) \<longrightarrow> \<not> isSolved C g2 p)"
  then have rows: "\<forall>ls \<in> set matrix. length ls \<le> C" ..
  have nosol: "\<not> solvedM C M'"
    if e: "DefaultEmptyFlasksNumber \<le> e" "e \<le> MaxEmptyFlasksNumber"
      and r: "replayM C (matrix @ replicate e []) ts = Some M'" for e ts M'
  proof
    assume s: "solvedM C M'"
    let ?M = "matrix @ replicate e []"
    let ?p = "[length ([] :: heap)..<length ([] :: heap) + length ?M]"
    have "\<forall>ls \<in> set ?M. length ls \<le> C"
      using rows by auto
    then have n: "Puzzle_new C ?M [] = (Inr ?p, [] @ ?M)"
      by (rule Puzzle_new_ok)
    have "replayM C (layersMatrix ([] @ ?M) ?p) ts = Some M'"
      using r by (simp only: layersMatrix_fresh)
    from replay_replayM [OF _ _ this]
    obtain g2 where "replay C ?p ts ([] @ ?M) = (Inr (), g2)" "layersMatrix g2 ?p = M'"
      by auto
    then have "replay C ?p ts ([] @ ?M) = (Inr (), g2)" "isSolved C g2 ?p"
      using s by (simp_all add: isSolved_solvedM)
    then show False
      using a e n by blast
  qed
  show "\<exists>h'. solve C DefaultEmptyFlasksNumber MaxEmptyFlasksNumber md5 pq matrix solvingMethod h
      = Some (Inr (None, max DefaultEmptyFlasksNumber (Suc MaxEmptyFlasksNumber)), h')"
    unfolding solve_def using nosol by (intro solveFrom_nosol [OF pq rows]) blast
  show "\<forall>e p h1. DefaultEmptyFlasksNumber \<le> e \<and> e \<le> MaxEmptyFlasksNumber
                  \<and> Puzzle_new C (matrix @ replicate e []) h = (Inr p, h1) \<longrightarrow>
                  (\<exists>h2. solveUsingStack C md5 p h1 = Some (Inr None, h2))
                  \<and> (\<exists>h2. solveUsingPriorityQueue C md5 pq p maxAllowedMetricDelta h1
                             = Some (Inr None, h2))"
  proof (intro allI impI)
    fix e p h1
    assume b: "DefaultEmptyFlasksNumber \<le> e \<and> e \<le> MaxEmptyFlasksNumber
                  \<and> Puzzle_new C (matrix @ replicate e []) h = (Inr p, h1)"
    let ?M = "matrix @ replicate e []"
    have r: "\<forall>ls \<in> set ?M. length ls \<le> C"
      using rows by auto
    have ph: "p = [length h..<length h + length ?M]" "h1 = h @ ?M"
      using b Puzzle_new_ok [OF r, of h] by simp_all
    have ok: "Puzzle_ok C h1 p"
      unfolding ph using r by (rule Puzzle_ok_new)
    have lm: "layersMatrix h1 p = ?M"
      unfolding ph by (rule layersMatrix_fresh)
    have none: "res = None"
      if "\<forall>ts. res = Some ts \<longrightarrow> (\<exists>M'. replayM C (layersMatrix h1 p) ts = Some M' \<and> solvedM C M')"
      for res
      using that nosol b unfolding lm by (cases res) auto
    from solveUsingStack_total [OF ok, of md5]
      solveUsingPriorityQueue_total [OF pq ok, of md5 maxAllowedMetricDelta]
    show "(\<exists>h2. solveUsingStack C md5 p h1 = Some (Inr None, h2))
        \<and> (\<exists>h2. solveUsingPriorityQueue C md5 pq p maxAllowedMetricDelta h1 = Some (Inr None, h2))"
      using none by metis
  qed
qed

text \<open>The single flask \<open>[0]\<close> with capacity 4 and counts 0 to 2: one layer never fills a
  flask.\<close>

theorem no_solution_reported_witness:
  "PriorityQueue_ok (listQueue :: PriorityQueueStep PriorityQueue)
   \<and> (\<exists>h'. solve 4 0 2 (\<lambda>s. s) listQueue [[0]] ''balanced'' [] = Some (Inr (None, 3), h'))"
proof -
  have "\<forall>e ts p g1 g2. (0::nat) \<le> e \<and> e \<le> 2
          \<and> Puzzle_new 4 ([[0]] @ replicate e []) [] = (Inr p, g1)
          \<and> replay 4 p ts g1 = (Inr (), g2) \<longrightarrow> \<not> isSolved 4 g2 p"
    using single_layer_unsolvable by blast
  moreover have "\<forall>ls \<in> set [[0::int]]. length ls \<le> 4"
    by simp
  ultimately have "\<exists>h'. solve 4 0 2 (\<lambda>s. s) listQueue [[0]] ''balanced'' []
      = Some (Inr (None, max 0 (Suc 2)), h')"
    using no_solution_reported [OF PriorityQueue_ok_listQueue,
        of 4 0 2 "\<lambda>s. s" "[[0]]" "''balanced''" "[]"]
    by blast
  then show ?thesis
    using PriorityQueue_ok_listQueue by (simp add: numeral_3_eq_3)
qed

text \<open>
  Claim C9. A run of \<open>solveUsingStack\<close> or of \<open>solveUsingPriorityQueue\<close> on a puzzle of
  the store ends, throws nothing, and leaves the layers of the puzzle it was given as
  they were; indeed no flask that existed before the run is changed, the run only
  allocates new ones.
\<close>

theorem search_keeps_input_puzzle:
  assumes "PriorityQueue_ok pq" and "Puzzle_ok C h p"
  shows "(\<exists>res h'. solveUsingStack C md5 p h = Some (Inr res, h')
            \<and> layersMatrix h' p = layersMatrix h p \<and> take (length h) h' = h)
       \<and> (\<exists>res h'. solveUsingPriorityQueue C md5 pq p maxAllowedMetricDelta h = Some (Inr res, h')
            \<and> layersMatrix h' p = layersMatrix h p \<and> take (length h) h' = h)"
proof -
  have keep: "layersMatrix h' p = layersMatrix h p \<and> take (length h) h' = h"
    if "prefix h h'" for h'
  proof -
    have "\<forall>f \<in> set p. f < length h"
      using assms(2) by (simp add: Puzzle_ok_def)
    then have "layersMatrix h' p = layersMatrix h p"
      using that by (intro layersMatrix_prefix)
    moreover have "take (length h) h' = h"
      using that by (auto simp: prefix_def)
    ultimately show ?thesis ..
  qed
  from solveUsingStack_total [OF assms(2), of md5]
    solveUsingPriorityQueue_total [OF assms, of md5 maxAllowedMetricDelta]
  show ?thesis
    using keep by blast
qed

text \<open>The puzzle built from \<open>[[0, 1, 0, 1], [1, 0, 1, 0], []]\<close>.\<close>

theorem search_keeps_input_puzzle_witness:
  "PriorityQueue_ok (listQueue :: PriorityQueueStep PriorityQueue)
   \<and> Puzzle_ok 4 [[0, 1, 0, 1], [1, 0, 1, 0], []] [0, 1, 2]
   \<and> (\<exists>res h'. solveUsingStack 4 (\<lambda>s. s) [0, 1, 2] [[0, 1, 0, 1], [1, 0, 1, 0], []]
                  = Some (Inr res, h')
         \<and> layersMatrix h' [0, 1, 2] = [[0, 1, 0, 1], [1, 0, 1, 0], []])
   \<and> (\<exists>res h'. solveUsingPriorityQueue 4 (\<lambda>s. s) listQueue [0, 1, 2] 1
                    [[0, 1, 0, 1], [1, 0, 1, 0], []]
                  = Some (Inr res, h')
         \<and> layersMatrix h' [0, 1, 2] = [[0, 1, 0, 1], [1, 0, 1, 0], []])"
proof -
  have ok: "Puzzle_ok 4 [[0, 1, 0, 1], [1, 0, 1, 0], []] [0, 1, 2]"
    by (simp add: Puzzle_ok_def)
  have m: "layersMatrix [[0, 1, 0, 1], [1, 0, 1, 0], []] [0, 1, 2]
      = [[0, 1, 0, 1], [1, 0, 1, 0], []]"
    by (simp add: layersMatrix_def)
  from search_keeps_input_puzzle [OF PriorityQueue_ok_listQueue ok, of "\<lambda>s. s" 1]
  show ?thesis
    using ok PriorityQueue_ok_listQueue unfolding m by blast
qed

end
